theory Spec2Isabelle
  imports
    Main
    "HOL-Library.Char_ord"
    "HOL-Library.List_Lexorder"
    "HOL-Library.Sublist"
    "HOL-Library.AList"
begin

section \<open>The documentation build script \<^verbatim>\<open>scripts/build_docs.py\<close>\<close>

text \<open>
  The script patches two text files, runs an external build once per version, merges
  every build output into a staging directory and finally renames the staging directory.
  The embedding below follows \<^verbatim>\<open>build_docs\<close> and \<^verbatim>\<open>main\<close> statement by statement.

  Modelling decisions.
  \<^item> A file's content is its text (a \<^typ>\<open>string\<close>), decoding being below the model.
    \<^verbatim>\<open>fileinput\<close> opens a file in text mode with universal newlines: what the script
    reads has every carriage return, alone or before a line feed, turned into a line
    feed. What it writes is written as it is, the platform's line end being the line feed
    (a POSIX system, as the script's first line assumes).
  \<^item> The working directory after \<^verbatim>\<open>os.chdir("../")\<close> is the project root; the record
    \<open>files\<close> holds the four entries of it the script touches. A missing entry is
    \<^term>\<open>None\<close>.
  \<^item> The external commands (\<^verbatim>\<open>npm\<close>, \<^verbatim>\<open>yarn\<close>) are a parameter: a function from the
    argument vector and the files to \<^term>\<open>None\<close> (the program could not be started) or
    to an exit status and the files it leaves.
  \<^item> An uncaught exception or \<^verbatim>\<open>sys.exit\<close> ends the run; the model returns how the run
    ended together with the state it left.
\<close>

subsection \<open>Characters\<close>

abbreviation LF :: char where "LF \<equiv> CHR 0x0A"
abbreviation CR :: char where "CR \<equiv> CHR 0x0D"
abbreviation BSL :: char where "BSL \<equiv> CHR 0x5C"
abbreviation DQ :: char where "DQ \<equiv> CHR 0x22"
abbreviation SQ :: char where "SQ \<equiv> CHR 0x27"

subsection \<open>\<^verbatim>\<open>str.replace\<close> and \<^verbatim>\<open>in\<close>\<close>

text \<open>
  \<^verbatim>\<open>s.replace(old, new)\<close>: every occurrence of \<open>old\<close>, found from left to right without
  overlap, becomes \<open>new\<close>. With an empty \<open>old\<close>, \<open>new\<close> is inserted before every character
  and at the end.
\<close>

function str_replace :: "string \<Rightarrow> string \<Rightarrow> string \<Rightarrow> string" where
  "str_replace old new [] = (if old = [] then new else [])"
| "str_replace old new (c # cs) =
     (if old = [] then new @ c # str_replace old new cs
      else if prefix old (c # cs) then new @ str_replace old new (drop (length old) (c # cs))
      else c # str_replace old new cs)"
  by pat_completeness auto
termination
  by (relation "measure (\<lambda>(old, new, s). length s)") auto

text \<open>\<^verbatim>\<open>sub in s\<close>: \<open>sub\<close> occurs in \<open>s\<close> as a contiguous substring.\<close>

fun contains :: "string \<Rightarrow> string \<Rightarrow> bool" where
  "contains [] sub = (sub = [])"
| "contains (c # cs) sub = (prefix sub (c # cs) \<or> contains cs sub)"

subsection \<open>Reading a text file line by line\<close>

text \<open>
  The text layer's universal newlines: reading turns \<^verbatim>\<open>\r\n\<close> and a lone \<^verbatim>\<open>\r\<close> into
  \<^verbatim>\<open>\n\<close>.
\<close>

fun universal_newlines :: "string \<Rightarrow> string" where
  "universal_newlines [] = []"
| "universal_newlines [c] = (if c = CR then [LF] else [c])"
| "universal_newlines (c # d # cs) =
     (if c = CR then
        (if d = LF then LF # universal_newlines cs else LF # universal_newlines (d # cs))
      else c # universal_newlines (d # cs))"

text \<open>
  The lines of a translated text, each with its line feed; the last line has none when the
  text does not end with one. An empty text has no line.
\<close>

fun text_lines :: "string \<Rightarrow> string list" where
  "text_lines [] = []"
| "text_lines (c # cs) =
     (if c = LF then [c] # text_lines cs
      else (case text_lines cs of [] \<Rightarrow> [[c]] | l # ls \<Rightarrow> (c # l) # ls))"

text \<open>Iterating over a file opened in text mode yields the lines of its translated text.\<close>

definition readlines :: "string \<Rightarrow> string list" where
  "readlines content = text_lines (universal_newlines content)"

text \<open>
  \<^verbatim>\<open>for line in fileinput.input(name, inplace=1): print(f(line), end='')\<close>:
  the file is replaced by the concatenation of the transformed lines.
\<close>

definition fileinput_inplace :: "(string \<Rightarrow> string) \<Rightarrow> string \<Rightarrow> string" where
  "fileinput_inplace f content = concat (map f (readlines content))"

text \<open>The same transformation of a text that is translated already.\<close>

definition map_lines :: "(string \<Rightarrow> string) \<Rightarrow> string \<Rightarrow> string" where
  "map_lines f s = concat (map f (text_lines s))"

subsection \<open>\<^verbatim>\<open>re.sub(r"^var buildVersion.*", replacement, line)\<close>\<close>

text \<open>
  A replacement string is a template: \<^verbatim>\<open>re.sub\<close> processes its backslash escapes before
  it searches (CPython 3.12, \<^verbatim>\<open>re._parser.parse_template\<close>). The pattern has no group, so
  the only valid group reference is group 0, the whole match. An invalid template raises
  \<^verbatim>\<open>re.error\<close>, here \<^term>\<open>None\<close> (a reference to a group name raises \<^verbatim>\<open>IndexError\<close>
  instead; neither is caught, and the model has one outcome for both).
\<close>

datatype repl_item = Literal char | Group0

definition is_digit :: "char \<Rightarrow> bool" where
  "is_digit c = (48 \<le> (of_char c :: nat) \<and> (of_char c :: nat) \<le> 57)"

definition is_octdigit :: "char \<Rightarrow> bool" where
  "is_octdigit c = (48 \<le> (of_char c :: nat) \<and> (of_char c :: nat) \<le> 55)"

definition is_ascii_letter :: "char \<Rightarrow> bool" where
  "is_ascii_letter c =
     ((97 \<le> (of_char c :: nat) \<and> (of_char c :: nat) \<le> 122) \<or>
      (65 \<le> (of_char c :: nat) \<and> (of_char c :: nat) \<le> 90))"

text \<open>The value of a string of octal digits.\<close>

definition octal :: "string \<Rightarrow> nat" where
  "octal ds = foldl (\<lambda>n d. 8 * n + (of_char d - 48)) 0 ds"

text \<open>The table \<^verbatim>\<open>ESCAPES\<close> of the template parser.\<close>

definition ESCAPES :: "char \<Rightarrow> char option" where
  "ESCAPES c =
     (if c = CHR ''a'' then Some (CHR 0x07)
      else if c = CHR ''b'' then Some (CHR 0x08)
      else if c = CHR ''f'' then Some (CHR 0x0C)
      else if c = CHR ''n'' then Some LF
      else if c = CHR ''r'' then Some CR
      else if c = CHR ''t'' then Some (CHR 0x09)
      else if c = CHR ''v'' then Some (CHR 0x0B)
      else if c = BSL then Some BSL
      else None)"

function parse_template :: "string \<Rightarrow> repl_item list option" where
  "parse_template [] = Some []"
| "parse_template (c # s) =
     (if c \<noteq> BSL then map_option ((#) (Literal c)) (parse_template s)
      else (case s of
        [] \<Rightarrow> None
      | d # r \<Rightarrow>
          if d = CHR ''g'' then
            (case r of
               [] \<Rightarrow> None
             | b # r1 \<Rightarrow>
                 if b \<noteq> CHR ''<'' then None
                 else if dropWhile (\<lambda>x. x \<noteq> CHR ''>'') r1 = [] then None
                 else if takeWhile (\<lambda>x. x \<noteq> CHR ''>'') r1 = [] then None
                 else if \<not> list_all (\<lambda>x. x = CHR ''0'') (takeWhile (\<lambda>x. x \<noteq> CHR ''>'') r1)
                   then None
                 else map_option ((#) Group0)
                        (parse_template (tl (dropWhile (\<lambda>x. x \<noteq> CHR ''>'') r1))))
          else if d = CHR ''0'' then
            map_option
              ((#) (Literal (char_of (octal (takeWhile is_octdigit (take 2 r)) mod 256))))
              (parse_template (drop (length (takeWhile is_octdigit (take 2 r))) r))
          else if is_digit d then
            (case r of
               d2 # d3 # r3 \<Rightarrow>
                 if is_octdigit d \<and> is_octdigit d2 \<and> is_octdigit d3 then
                   (if octal [d, d2, d3] > 255 then None
                    else map_option ((#) (Literal (char_of (octal [d, d2, d3]))))
                           (parse_template r3))
                 else None
             | _ \<Rightarrow> None)
          else (case ESCAPES d of
              Some e \<Rightarrow> map_option ((#) (Literal e)) (parse_template r)
            | None \<Rightarrow>
                if is_ascii_letter d then None
                else map_option (\<lambda>items. Literal BSL # Literal d # items)
                       (parse_template r))))"
  by pat_completeness auto
termination
proof (relation "measure length")
  fix c :: char and s :: string and d :: char and r :: string and b :: char and r1 :: string
  assume "s = d # r" "r = b # r1"
  have "length (dropWhile (\<lambda>x. x \<noteq> CHR ''>'') r1) \<le> length r1"
    by (rule length_dropWhile_le)
  then show "(tl (dropWhile (\<lambda>x. x \<noteq> CHR ''>'') r1), c # s) \<in> measure length"
    using \<open>s = d # r\<close> \<open>r = b # r1\<close> by simp
qed auto

text \<open>The expansion of a template for the matched text \<open>m\<close>.\<close>

definition expand :: "repl_item list \<Rightarrow> string \<Rightarrow> string" where
  "expand items m = concat (map (\<lambda>i. case i of Literal c \<Rightarrow> [c] | Group0 \<Rightarrow> m) items)"

text \<open>
  The pattern is anchored at the start of the string and \<^verbatim>\<open>.\<close> matches every character
  but the line feed: a string that starts with \<^verbatim>\<open>var buildVersion\<close> matches up to its first
  line feed, and there is no second match.
\<close>

definition matches_buildVersion :: "string \<Rightarrow> bool" where
  "matches_buildVersion line = prefix ''var buildVersion'' line"

definition re_sub_buildVersion :: "repl_item list \<Rightarrow> string \<Rightarrow> string" where
  "re_sub_buildVersion items line =
     (if matches_buildVersion line
      then expand items (takeWhile (\<lambda>c. c \<noteq> LF) line) @ dropWhile (\<lambda>c. c \<noteq> LF) line
      else line)"

text \<open>\<^verbatim>\<open>replacement = f'var buildVersion = "{v}";'\<close>\<close>

definition replacement :: "string \<Rightarrow> string" where
  "replacement v = ''var buildVersion = '' @ [DQ] @ v @ [DQ] @ '';''"

subsection \<open>The project directory and the state of a run\<close>

text \<open>A directory tree: a regular file with its content, or a directory with its entries.\<close>

datatype node = File string | Dir "(string \<times> node) list"

text \<open>
  The four entries of the project root the script touches: \<^verbatim>\<open>redirects.js\<close>,
  \<^verbatim>\<open>docusaurus.config.js\<close>, \<^verbatim>\<open>build\<close> and \<^verbatim>\<open>build__temp\<close>.
\<close>

record files =
  redirects_js :: "string option"
  docusaurus_config_js :: "string option"
  build :: "node option"
  build_temp :: "node option"

text \<open>
  The state of a run: the files, the lines the script printed on standard output, and the
  argument vectors it handed to \<^verbatim>\<open>subprocess.run\<close>, in order.
\<close>

record world =
  fs :: files
  stdout :: "string list"
  invoked :: "string list list"

type_synonym tool = "string list \<Rightarrow> files \<Rightarrow> (int \<times> files) option"

datatype exn =
    FileNotFoundError
  | FileExistsError
  | NotADirectoryError
  | ReError
  | ShutilError

text \<open>
  How a statement, or the run, ends: it completes, \<^verbatim>\<open>sys.exit(message)\<close> is called, or an
  exception is raised and never caught.
\<close>

datatype outcome = Finished | SysExit string | Raised exn

text \<open>
  The exit status of the process: \<^verbatim>\<open>sys.exit\<close> with a string prints the string on standard
  error and exits with 1, as an uncaught exception does.
\<close>

fun exit_status :: "outcome \<Rightarrow> int" where
  "exit_status Finished = 0"
| "exit_status (SysExit msg) = 1"
| "exit_status (Raised e) = 1"

text \<open>Sequencing: the next statement runs when the one before completed.\<close>

definition and_then :: "outcome \<times> world \<Rightarrow> (world \<Rightarrow> outcome \<times> world) \<Rightarrow> outcome \<times> world" where
  "and_then r k = (case r of (Finished, w) \<Rightarrow> k w | (out, w) \<Rightarrow> (out, w))"

definition print_line :: "string \<Rightarrow> world \<Rightarrow> world" where
  "print_line l w = w\<lparr>stdout := stdout w @ [l]\<rparr>"

subsection \<open>\<^verbatim>\<open>subprocess.run\<close>\<close>

text \<open>
  \<^verbatim>\<open>subprocess.run(argv)\<close> without \<^verbatim>\<open>check=True\<close>: it raises when the program cannot be
  started, and otherwise returns the completed process, whose exit status is the value here.
\<close>

definition subprocess_run :: "tool \<Rightarrow> string list \<Rightarrow> world \<Rightarrow> (exn + int) \<times> world" where
  "subprocess_run t argv w =
     (case t argv (fs w) of
        None \<Rightarrow> (Inl FileNotFoundError, w\<lparr>invoked := invoked w @ [argv]\<rparr>)
      | Some (rc, f) \<Rightarrow> (Inr rc, w\<lparr>fs := f, invoked := invoked w @ [argv]\<rparr>))"

definition install_cmd :: "bool \<Rightarrow> string list" where
  "install_cmd use_yarn = (if \<not> use_yarn then [''npm'', ''install''] else [''yarn'', ''install''])"

definition build_cmd :: "bool \<Rightarrow> string list" where
  "build_cmd use_yarn = (if \<not> use_yarn then [''npm'', ''run'', ''build''] else [''yarn'', ''build''])"

text \<open>The script calls \<^verbatim>\<open>subprocess.run\<close> as a statement: the completed process is dropped.\<close>

definition run_statement :: "tool \<Rightarrow> string list \<Rightarrow> world \<Rightarrow> outcome \<times> world" where
  "run_statement t argv w =
     (case subprocess_run t argv w of
        (Inl e, w') \<Rightarrow> (Raised e, w')
      | (Inr rc, w') \<Rightarrow> (Finished, w'))"

subsection \<open>The two in-place rewrites\<close>

text \<open>
  \<^verbatim>\<open>for line in fileinput.input("redirects.js", inplace=1):
      print(line.replace(old, new), end='')\<close>
\<close>

definition replace_in_redirects :: "string \<Rightarrow> string \<Rightarrow> world \<Rightarrow> outcome \<times> world" where
  "replace_in_redirects old new w =
     (case redirects_js (fs w) of
        None \<Rightarrow> (Raised FileNotFoundError, w)
      | Some r \<Rightarrow>
          (Finished, w\<lparr>fs := (fs w)\<lparr>redirects_js := Some (fileinput_inplace (str_replace old new) r)\<rparr>\<rparr>))"

text \<open>
  \<^verbatim>\<open>for line in fileinput.input("docusaurus.config.js", inplace=1):
      print(re.sub(r"^var buildVersion.*", replacement, line), end='')\<close>

  The template is parsed at the first call of \<^verbatim>\<open>re.sub\<close>, that is at the first line, match
  or not. When it is invalid the exception leaves the output file as it was opened: empty.
\<close>

definition rewrite_config :: "string \<Rightarrow> string \<Rightarrow> exn + string" where
  "rewrite_config v content =
     (if readlines content = [] then Inr content
      else (case parse_template (replacement v) of
          None \<Rightarrow> Inl ReError
        | Some items \<Rightarrow> Inr (fileinput_inplace (re_sub_buildVersion items) content)))"

definition set_buildVersion :: "string \<Rightarrow> world \<Rightarrow> outcome \<times> world" where
  "set_buildVersion v w =
     (case docusaurus_config_js (fs w) of
        None \<Rightarrow> (Raised FileNotFoundError, w)
      | Some c \<Rightarrow>
          (case rewrite_config v c of
             Inl e \<Rightarrow> (Raised e, w\<lparr>fs := (fs w)\<lparr>docusaurus_config_js := Some []\<rparr>\<rparr>)
           | Inr c' \<Rightarrow> (Finished, w\<lparr>fs := (fs w)\<lparr>docusaurus_config_js := Some c'\<rparr>\<rparr>)))"

subsection \<open>\<^verbatim>\<open>shutil.copytree(build_dir, temp_dir, dirs_exist_ok=True)\<close>\<close>

text \<open>
  \<^verbatim>\<open>shutil.copy2\<close> of a file with content \<open>c\<close> to the name \<open>n\<close> in a directory with the
  entries \<open>des\<close>. When the destination name is a directory, the file is copied into that
  directory under its own name; that fails when a directory is there too. The flag says
  whether the copy failed.
\<close>

definition copy2 :: "string \<Rightarrow> string \<Rightarrow> (string \<times> node) list \<Rightarrow> (string \<times> node) list \<times> bool" where
  "copy2 n c des =
     (case map_of des n of
        Some (Dir sub) \<Rightarrow>
          (case map_of sub n of
             Some (Dir x) \<Rightarrow> (des, True)
           | _ \<Rightarrow> (AList.update n (Dir (AList.update n (File c) sub)) des, False))
      | _ \<Rightarrow> (AList.update n (File c) des, False))"

text \<open>
  The loop of \<^verbatim>\<open>copytree\<close> over the entries of the source directory, into a destination
  directory that exists. A source directory is copied into the destination of its name,
  created when missing; when a regular file has that name, \<^verbatim>\<open>os.makedirs\<close> fails. Failures are
  collected and the loop goes on; the flag says whether there was one.
\<close>

fun copy_entries :: "(string \<times> node) list \<Rightarrow> (string \<times> node) list \<Rightarrow> (string \<times> node) list \<times> bool" where
  "copy_entries [] des = (des, False)"
| "copy_entries ((n, File c) # rest) des =
     (case copy2 n c des of (des1, e1) \<Rightarrow>
        (case copy_entries rest des1 of (des2, e2) \<Rightarrow> (des2, e1 \<or> e2)))"
| "copy_entries ((n, Dir sub) # rest) des =
     (case map_of des n of
        Some (File x) \<Rightarrow>
          (case copy_entries rest des of (des2, e2) \<Rightarrow> (des2, True))
      | Some (Dir dsub) \<Rightarrow>
          (case copy_entries sub dsub of (dsub', e1) \<Rightarrow>
             (case copy_entries rest (AList.update n (Dir dsub') des) of
                (des2, e2) \<Rightarrow> (des2, e1 \<or> e2)))
      | None \<Rightarrow>
          (case copy_entries sub [] of (dsub', e1) \<Rightarrow>
             (case copy_entries rest (AList.update n (Dir dsub') des) of
                (des2, e2) \<Rightarrow> (des2, e1 \<or> e2))))"

text \<open>
  \<^verbatim>\<open>copytree\<close> of a source directory with the entries \<open>ses\<close> to a destination that is missing,
  a directory, or a regular file. The result is the destination, and the exception if any.
\<close>

definition copytree :: "(string \<times> node) list \<Rightarrow> node option \<Rightarrow> node option \<times> exn option" where
  "copytree ses dst =
     (case dst of
        Some (File x) \<Rightarrow> (dst, Some FileExistsError)
      | Some (Dir des) \<Rightarrow>
          (case copy_entries ses des of
             (des', e) \<Rightarrow> (Some (Dir des'), if e then Some ShutilError else None))
      | None \<Rightarrow>
          (case copy_entries ses [] of
             (des', e) \<Rightarrow> (Some (Dir des'), if e then Some ShutilError else None)))"

text \<open>\<^verbatim>\<open>os.path.isdir\<close>\<close>

fun isdir :: "node option \<Rightarrow> bool" where
  "isdir (Some (Dir es)) = True"
| "isdir _ = False"

text \<open>The merge of \<^verbatim>\<open>build\<close> into \<^verbatim>\<open>build__temp\<close>; it runs after the check that \<^verbatim>\<open>build\<close> is a directory.\<close>

definition merge_copy :: "world \<Rightarrow> outcome \<times> world" where
  "merge_copy w =
     (case build (fs w) of
        Some (Dir ses) \<Rightarrow>
          (case copytree ses (build_temp (fs w)) of
             (d, None) \<Rightarrow> (Finished, w\<lparr>fs := (fs w)\<lparr>build_temp := d\<rparr>\<rparr>)
           | (d, Some e) \<Rightarrow> (Raised e, w\<lparr>fs := (fs w)\<lparr>build_temp := d\<rparr>\<rparr>))
      | Some (File x) \<Rightarrow> (Raised NotADirectoryError, w)
      | None \<Rightarrow> (Raised FileNotFoundError, w))"

text \<open>The node at a path below a node; the empty path is the node itself.\<close>

fun lookup_path :: "node \<Rightarrow> string list \<Rightarrow> node option" where
  "lookup_path n [] = Some n"
| "lookup_path (File c) (x # p) = None"
| "lookup_path (Dir es) (x # p) =
     (case map_of es x of None \<Rightarrow> None | Some m \<Rightarrow> lookup_path m p)"

text \<open>The node at a path below an entry of the project root that may be missing.\<close>

definition lookup_in :: "node option \<Rightarrow> string list \<Rightarrow> node option" where
  "lookup_in d p = (case d of None \<Rightarrow> None | Some n \<Rightarrow> lookup_path n p)"

text \<open>A directory lists every name once, at every level.\<close>

fun distinct_names :: "node \<Rightarrow> bool" where
  "distinct_names (File c) = True"
| "distinct_names (Dir es) =
     (distinct (map fst es) \<and> list_all (\<lambda>e. distinct_names (snd e)) es)"

subsection \<open>\<^verbatim>\<open>build_docs\<close>\<close>

definition announce :: "string \<Rightarrow> string" where
  "announce v = ''Building the docs for version '' @ [SQ] @ v @ [SQ] @ ''...''"

definition not_built :: string where
  "not_built = ''ERROR: The docs were not built. Check Docusaurus logs.''"

text \<open>The statements of the loop body before the build command: lines 34 to 44.\<close>

definition patch_files :: "string \<Rightarrow> world \<Rightarrow> outcome \<times> world" where
  "patch_files v w =
     and_then
       (if v \<noteq> ''latest''
        then replace_in_redirects ''/latest/'' (''/'' @ v @ ''/'') (print_line (announce v) w)
        else (Finished, print_line (announce v) w))
       (set_buildVersion v)"

text \<open>The statements of the loop body after the build command: lines 56 to 63.\<close>

definition collect_output :: "string \<Rightarrow> world \<Rightarrow> outcome \<times> world" where
  "collect_output v w =
     (if \<not> isdir (build (fs w)) then (SysExit not_built, w)
      else and_then (merge_copy w)
             (\<lambda>w'. if v \<noteq> ''latest''
                   then replace_in_redirects (''/'' @ v @ ''/'') ''/latest/'' w'
                   else (Finished, w')))"

text \<open>One iteration of the loop.\<close>

definition build_version :: "tool \<Rightarrow> bool \<Rightarrow> string \<Rightarrow> world \<Rightarrow> outcome \<times> world" where
  "build_version t use_yarn v w =
     and_then (patch_files v w)
       (\<lambda>w1. and_then (run_statement t (build_cmd use_yarn) w1) (collect_output v))"

fun build_loop :: "tool \<Rightarrow> bool \<Rightarrow> string list \<Rightarrow> world \<Rightarrow> outcome \<times> world" where
  "build_loop t use_yarn [] w = (Finished, w)"
| "build_loop t use_yarn (v # vs) w =
     and_then (build_version t use_yarn v w) (build_loop t use_yarn vs)"

text \<open>\<^verbatim>\<open>shutil.rmtree(build_dir)\<close>\<close>

definition rmtree_build :: "world \<Rightarrow> outcome \<times> world" where
  "rmtree_build w =
     (case build (fs w) of
        Some (Dir es) \<Rightarrow> (Finished, w\<lparr>fs := (fs w)\<lparr>build := None\<rparr>\<rparr>)
      | Some (File x) \<Rightarrow> (Raised NotADirectoryError, w)
      | None \<Rightarrow> (Raised FileNotFoundError, w))"

text \<open>
  \<^verbatim>\<open>shutil.move(temp_dir, build_dir)\<close>, which runs when \<^verbatim>\<open>build\<close> has just been removed: a
  rename.
\<close>

definition move_temp :: "world \<Rightarrow> outcome \<times> world" where
  "move_temp w =
     (case build_temp (fs w) of
        None \<Rightarrow> (Raised FileNotFoundError, w)
      | Some d \<Rightarrow> (Finished, w\<lparr>fs := (fs w)\<lparr>build := Some d, build_temp := None\<rparr>\<rparr>))"

definition build_docs :: "tool \<Rightarrow> string list \<Rightarrow> bool \<Rightarrow> world \<Rightarrow> outcome \<times> world" where
  "build_docs t versions use_yarn w =
     and_then (build_loop t use_yarn versions w)
       (\<lambda>w1. and_then (rmtree_build w1) move_temp)"

subsection \<open>\<^verbatim>\<open>main\<close>\<close>

text \<open>
  \<^verbatim>\<open>sorted(versions)\<close> compares strings character by character, a proper prefix
  first: the order of \<^typ>\<open>string\<close> here, with characters compared by their codes.
\<close>

text \<open>\<^verbatim>\<open>shutil.rmtree('build', ignore_errors=True)\<close>: a regular file of that name stays.\<close>

definition rmtree_ignore_errors :: "world \<Rightarrow> world" where
  "rmtree_ignore_errors w =
     (case build (fs w) of
        Some (Dir es) \<Rightarrow> w\<lparr>fs := (fs w)\<lparr>build := None\<rparr>\<rparr>
      | _ \<Rightarrow> w)"

definition install :: "tool \<Rightarrow> bool \<Rightarrow> bool \<Rightarrow> world \<Rightarrow> outcome \<times> world" where
  "install t skip_install use_yarn w =
     (if \<not> skip_install
      then run_statement t (install_cmd use_yarn) (print_line ''Installing Docusaurus...'' w)
      else (Finished, w))"

definition main :: "tool \<Rightarrow> string list \<Rightarrow> bool \<Rightarrow> bool \<Rightarrow> world \<Rightarrow> outcome \<times> world" where
  "main t versions skip_install use_yarn w =
     and_then (install t skip_install use_yarn w)
       (\<lambda>w1. build_docs t (sort versions) use_yarn (rmtree_ignore_errors w1))"

subsection \<open>Concrete inputs\<close>

text \<open>A project whose two configuration files are given and that has no output yet.\<close>

definition project :: "string \<Rightarrow> string \<Rightarrow> world" where
  "project r c =
     \<lparr>fs = \<lparr>redirects_js = Some r, docusaurus_config_js = Some c,
             build = None, build_temp = None\<rparr>,
      stdout = [], invoked = []\<rparr>"

text \<open>A state in which one version is staged and the next one has just been built.\<close>

definition staged :: world where
  "staged =
     \<lparr>fs = \<lparr>redirects_js = None, docusaurus_config_js = None,
             build = Some (Dir [(''index.html'', File ''new'')]),
             build_temp = Some (Dir [(''index.html'', File ''old''),
               (''docs'', Dir [(''a.html'', File ''old'')])])\<rparr>,
      stdout = [], invoked = []\<rparr>"

text \<open>
  A build tool that writes one page holding the two configuration files as it finds
  them, and an installer that does nothing. Every command exits with status \<open>rc\<close>.
\<close>

definition page_tool :: "int \<Rightarrow> tool" where
  "page_tool rc argv f =
     (if argv = [''npm'', ''run'', ''build''] \<or> argv = [''yarn'', ''build'']
      then Some (rc, f\<lparr>build := Some (Dir [(''index.html'',
             File ((case redirects_js f of None \<Rightarrow> [] | Some r \<Rightarrow> r) @
                   (case docusaurus_config_js f of None \<Rightarrow> [] | Some c \<Rightarrow> c)))])\<rparr>)
      else Some (rc, f))"

text \<open>A build tool that produces nothing.\<close>

definition silent_tool :: tool where
  "silent_tool argv f = Some (0, f)"

text \<open>The exit statuses of a tool replaced by others.\<close>

definition with_status :: "(string list \<Rightarrow> files \<Rightarrow> int \<Rightarrow> int) \<Rightarrow> tool \<Rightarrow> tool" where
  "with_status g t argv f = map_option (\<lambda>(rc, f'). (g argv f rc, f')) (t argv f)"

text \<open>A tool leaves the redirect file, or the configuration file, as it finds it.\<close>

definition keeps_redirects :: "tool \<Rightarrow> bool" where
  "keeps_redirects t = (\<forall>argv f rc f'. t argv f = Some (rc, f') \<longrightarrow> redirects_js f' = redirects_js f)"

definition keeps_config :: "tool \<Rightarrow> bool" where
  "keeps_config t =
     (\<forall>argv f rc f'. t argv f = Some (rc, f') \<longrightarrow> docusaurus_config_js f' = docusaurus_config_js f)"

section \<open>Properties of the building blocks\<close>

subsection \<open>Lines and substitutions\<close>

lemma concat_text_lines: "concat (text_lines s) = s"
  by (induction s) (auto split: list.splits)

lemma text_lines_eq_Nil: "text_lines s = [] \<longleftrightarrow> s = []"
  by (cases s) (auto split: list.splits)

lemma text_lines_no_LF: "LF \<notin> set s \<Longrightarrow> s \<noteq> [] \<Longrightarrow> text_lines s = [s]"
proof (induction s)
  case Nil
  then show ?case by simp
next
  case (Cons c cs)
  show ?case
  proof (cases "cs = []")
    case True
    then show ?thesis using Cons.prems by simp
  next
    case False
    then have "text_lines cs = [cs]" using Cons by simp
    then show ?thesis using Cons.prems by auto
  qed
qed

lemma text_lines_line: "LF \<notin> set w \<Longrightarrow> text_lines (w @ LF # s) = (w @ [LF]) # text_lines s"
  by (induction w) auto

lemma split_first_LF: "LF \<in> set s \<Longrightarrow> \<exists>w s'. s = w @ LF # s' \<and> LF \<notin> set w"
  by (metis split_list_first)

lemma prefix_before_LF: "LF \<notin> set old \<Longrightarrow> prefix old (u @ LF # s) \<longleftrightarrow> prefix old u"
  by (auto simp: prefix_append prefix_Cons)

lemma str_replace_at_occurrence:
  "old \<noteq> [] \<Longrightarrow> str_replace old new (old @ t) = new @ str_replace old new t"
  by (cases old) (simp_all add: prefix_def)

lemma str_replace_LF:
  assumes "old \<noteq> []" and "LF \<notin> set old"
  shows "str_replace old new (w @ LF # s) = str_replace old new w @ LF # str_replace old new s"
proof (induction w rule: length_induct)
  case (1 w)
  show ?case
  proof (cases w)
    case Nil
    then show ?thesis using assms by (cases old) auto
  next
    case (Cons c cs)
    show ?thesis
    proof (cases "prefix old (c # cs)")
      case True
      then have len: "length old \<le> length (c # cs)"
        by (rule prefix_length_le)
      have shorter: "length (drop (length old) (c # cs)) < length w"
        using assms(1) Cons by (cases old) auto
      have p: "prefix old (c # cs @ LF # s)"
        using True prefix_before_LF [OF assms(2), of "c # cs" s] by simp
      have d: "drop (length old) (c # cs @ LF # s) = drop (length old) (c # cs) @ LF # s"
        using len by (simp add: drop_Cons split: nat.splits)
      have "str_replace old new (drop (length old) (c # cs) @ LF # s) =
            str_replace old new (drop (length old) (c # cs)) @ LF # str_replace old new s"
        using 1 shorter by blast
      then show ?thesis
        using True p d assms(1) Cons by (simp del: drop_Suc_Cons)
    next
      case False
      then have np: "\<not> prefix old (c # cs @ LF # s)"
        using prefix_before_LF [OF assms(2), of "c # cs" s] by simp
      have "str_replace old new (cs @ LF # s) = str_replace old new cs @ LF # str_replace old new s"
        using 1 Cons by simp
      then show ?thesis
        using False np assms(1) Cons by simp
    qed
  qed
qed

lemma map_lines_str_replace:
  assumes "old \<noteq> []" and "LF \<notin> set old"
  shows "map_lines (str_replace old new) s = str_replace old new s"
proof (induction s rule: length_induct)
  case (1 s)
  show ?case
  proof (cases "LF \<in> set s")
    case False
    then show ?thesis
      using assms(1) by (cases "s = []") (simp_all add: map_lines_def text_lines_no_LF)
  next
    case True
    then obtain w s' where s: "s = w @ LF # s'" and w: "LF \<notin> set w"
      using split_first_LF by blast
    have IH: "map_lines (str_replace old new) s' = str_replace old new s'"
      using 1 s by simp
    have "str_replace old new (w @ [LF]) = str_replace old new w @ [LF]"
      using str_replace_LF [OF assms, of new w "[]"] assms(1) by simp
    then show ?thesis
      using IH s w str_replace_LF [OF assms, of new w s']
      by (simp add: map_lines_def text_lines_line)
  qed
qed

lemma contains_drop: "\<not> contains s sub \<Longrightarrow> \<not> contains (drop n s) sub"
  by (induction s arbitrary: n) (auto simp: drop_Cons split: nat.splits)

lemma contains_iff: "contains s sub \<longleftrightarrow> (\<exists>a b. s = a @ sub @ b)"
proof (induction s)
  case Nil
  then show ?case by simp
next
  case (Cons c cs)
  show ?case
  proof
    assume "contains (c # cs) sub"
    then consider "prefix sub (c # cs)" | "contains cs sub" by auto
    then show "\<exists>a b. c # cs = a @ sub @ b"
    proof cases
      case 1
      then obtain b where "c # cs = sub @ b" by (auto simp: prefix_def)
      then have "c # cs = [] @ sub @ b" by simp
      then show ?thesis by blast
    next
      case 2
      then obtain a b where "cs = a @ sub @ b" using Cons by blast
      then have "c # cs = (c # a) @ sub @ b" by simp
      then show ?thesis by blast
    qed
  next
    assume "\<exists>a b. c # cs = a @ sub @ b"
    then obtain a b where ab: "c # cs = a @ sub @ b" by blast
    show "contains (c # cs) sub"
    proof (cases a)
      case Nil
      then have "prefix sub (c # cs)" using ab by (metis append_Nil prefixI)
      then show ?thesis by simp
    next
      case (Cons x a')
      then have "cs = a' @ sub @ b" using ab by simp
      then show ?thesis using \<open>contains cs sub = (\<exists>a b. cs = a @ sub @ b)\<close> by auto
    qed
  qed
qed

lemma replace_keeps_first_segment:
  "prefix (u @ ''/'') (str_replace (CHR ''/'' # old') (CHR ''/'' # new') cs) \<Longrightarrow>
   CHR ''/'' \<notin> set u \<Longrightarrow> prefix (u @ ''/'') cs"
proof (induction u arbitrary: cs)
  case Nil
  then show ?case by (cases cs) (auto split: if_splits)
next
  case (Cons x u)
  then show ?case by (cases cs) (auto split: if_splits)
qed

lemma str_replace_roundtrip:
  assumes b: "CHR ''/'' \<notin> set b"
  shows "\<not> contains s (CHR ''/'' # b @ ''/'') \<Longrightarrow>
     str_replace (CHR ''/'' # b @ ''/'') (CHR ''/'' # old')
       (str_replace (CHR ''/'' # old') (CHR ''/'' # b @ ''/'') s) = s"
proof (induction s rule: length_induct)
  case (1 s)
  let ?old = "CHR ''/'' # old'"
  let ?new = "CHR ''/'' # b @ ''/''"
  show ?case
  proof (cases s)
    case Nil
    then show ?thesis by simp
  next
    case (Cons c cs)
    have np: "\<not> prefix ?new (c # cs)" and nc: "\<not> contains cs ?new"
      using 1(2) Cons by auto
    show ?thesis
    proof (cases "prefix ?old (c # cs)")
      case True
      define r where "r = drop (length ?old) (c # cs)"
      have s_eq: "c # cs = ?old @ r"
        using True unfolding r_def by (auto simp: prefix_def)
      have shorter: "length r < length s"
        using Cons by (simp add: r_def)
      have "\<not> contains r ?new"
        unfolding r_def using 1(2) Cons contains_drop by blast
      then have IH: "str_replace ?new ?old (str_replace ?old ?new r) = r"
        using 1(1) shorter by blast
      have fwd: "str_replace ?old ?new (c # cs) = ?new @ str_replace ?old ?new r"
        using str_replace_at_occurrence [of ?old ?new r] s_eq by simp
      have "str_replace ?new ?old (?new @ str_replace ?old ?new r) =
            ?old @ str_replace ?new ?old (str_replace ?old ?new r)"
        by (rule str_replace_at_occurrence) simp
      then have "str_replace ?new ?old (str_replace ?old ?new (c # cs)) = c # cs"
        by (simp only: fwd IH s_eq [symmetric])
      then show ?thesis unfolding Cons .
    next
      case False
      have fwd: "str_replace ?old ?new (c # cs) = c # str_replace ?old ?new cs"
        using False by auto
      have IH: "str_replace ?new ?old (str_replace ?old ?new cs) = cs"
        using 1(1) nc Cons by simp
      have "\<not> prefix ?new (c # str_replace ?old ?new cs)"
      proof
        assume p: "prefix ?new (c # str_replace ?old ?new cs)"
        then have c: "c = CHR ''/''" and "prefix (b @ ''/'') (str_replace ?old ?new cs)"
          by auto
        then have "prefix (b @ ''/'') cs"
          using replace_keeps_first_segment b by blast
        then have "prefix ?new (c # cs)" unfolding c by simp
        then show False using np by blast
      qed
      then have "str_replace ?new ?old (c # str_replace ?old ?new cs) =
                 c # str_replace ?new ?old (str_replace ?old ?new cs)"
        by auto
      then have "str_replace ?new ?old (str_replace ?old ?new (c # cs)) = c # cs"
        by (simp only: fwd IH)
      then show ?thesis unfolding Cons .
    qed
  qed
qed

lemma parse_template_literal: "BSL \<notin> set s \<Longrightarrow> parse_template s = Some (map Literal s)"
  by (induction s) auto

lemma expand_literal: "expand (map Literal s) m = s"
  by (induction s) (simp_all add: expand_def)

lemma text_lines_shape: "l \<in> set (text_lines s) \<Longrightarrow> l \<noteq> [] \<and> LF \<notin> set (butlast l)"
  by (induction s arbitrary: l) (auto split: list.splits if_splits)

lemma re_sub_literal:
  "re_sub_buildVersion (map Literal d) l =
     (if matches_buildVersion l then d @ dropWhile (\<lambda>c. c \<noteq> LF) l else l)"
  by (simp add: re_sub_buildVersion_def expand_literal)

lemma matches_replacement: "matches_buildVersion (replacement v @ t)"
  by (simp add: matches_buildVersion_def replacement_def)

lemma replacement_clean:
  "BSL \<notin> set v \<Longrightarrow> BSL \<notin> set (replacement v)"
  "LF \<notin> set v \<Longrightarrow> LF \<notin> set (replacement v)"
  "CR \<notin> set v \<Longrightarrow> CR \<notin> set (replacement v)"
  "replacement v \<noteq> []"
  by (simp_all add: replacement_def)

lemma dropWhile_after_clean:
  "LF \<notin> set d \<Longrightarrow> dropWhile (\<lambda>c. c \<noteq> LF) (d @ t) = dropWhile (\<lambda>c. c \<noteq> LF) t"
  by (rule dropWhile_append2) auto

lemma dropWhile_clean: "LF \<notin> set w \<Longrightarrow> dropWhile (\<lambda>c. c \<noteq> LF) w = []"
  by (auto simp: dropWhile_eq_Nil_conv)

lemma text_lines_map_lines:
  assumes g1: "\<And>w. LF \<notin> set w \<Longrightarrow> \<exists>w'. LF \<notin> set w' \<and> g (w @ [LF]) = w' @ [LF]"
      and g2: "\<And>w. LF \<notin> set w \<Longrightarrow> w \<noteq> [] \<Longrightarrow> LF \<notin> set (g w) \<and> g w \<noteq> []"
  shows "text_lines (map_lines g c) = map g (text_lines c)"
proof (induction c rule: length_induct)
  case (1 c)
  show ?case
  proof (cases "LF \<in> set c")
    case False
    show ?thesis
    proof (cases "c = []")
      case True
      then show ?thesis by (simp add: map_lines_def)
    next
      case nonempty: False
      have "text_lines (g c) = [g c]"
        using g2 [OF False nonempty] by (simp add: text_lines_no_LF)
      then show ?thesis
        using False nonempty by (simp add: map_lines_def text_lines_no_LF)
    qed
  next
    case True
    then obtain w c' where c: "c = w @ LF # c'" and w: "LF \<notin> set w"
      using split_first_LF by blast
    obtain w' where w': "LF \<notin> set w'" and gw: "g (w @ [LF]) = w' @ [LF]"
      using g1 [OF w] by blast
    have IH: "text_lines (map_lines g c') = map g (text_lines c')"
      using 1 c by simp
    have "map_lines g c = w' @ LF # map_lines g c'"
      using c w gw by (simp add: map_lines_def text_lines_line)
    then have "text_lines (map_lines g c) = (w' @ [LF]) # map g (text_lines c')"
      using w' IH by (simp add: text_lines_line)
    then show ?thesis
      using c w gw by (simp add: text_lines_line)
  qed
qed

subsection \<open>Universal newlines\<close>

lemma universal_newlines_id: "CR \<notin> set s \<Longrightarrow> universal_newlines s = s"
  by (induction s rule: universal_newlines.induct) auto

lemma universal_newlines_no_CR: "CR \<notin> set (universal_newlines s)"
  by (induction s rule: universal_newlines.induct) auto

lemma universal_newlines_eq_Nil: "universal_newlines s = [] \<longleftrightarrow> s = []"
  by (cases s rule: universal_newlines.cases) auto

lemma readlines_Nil: "readlines [] = []"
  by (simp add: readlines_def)

lemma readlines_eq_Nil: "readlines s = [] \<longleftrightarrow> s = []"
  by (simp add: readlines_def text_lines_eq_Nil universal_newlines_eq_Nil)

lemma readlines_no_CR: "CR \<notin> set s \<Longrightarrow> readlines s = text_lines s"
  by (simp add: readlines_def universal_newlines_id)

lemma fileinput_inplace_map_lines:
  "fileinput_inplace f s = map_lines f (universal_newlines s)"
  by (simp add: fileinput_inplace_def readlines_def map_lines_def)

lemma fileinput_inplace_str_replace:
  "old \<noteq> [] \<Longrightarrow> LF \<notin> set old \<Longrightarrow>
   fileinput_inplace (str_replace old new) s = str_replace old new (universal_newlines s)"
  by (simp add: fileinput_inplace_map_lines map_lines_str_replace)

lemma set_str_replace:
  assumes "old \<noteq> []"
  shows "set (str_replace old new s) \<subseteq> set s \<union> set new"
proof (induction s rule: length_induct)
  case (1 s)
  show ?case
  proof (cases s)
    case Nil
    then show ?thesis using assms by simp
  next
    case (Cons c cs)
    show ?thesis
    proof (cases "prefix old (c # cs)")
      case True
      have eq: "str_replace old new (c # cs) =
          new @ str_replace old new (drop (length old) (c # cs))"
        using True assms by simp
      have "length (drop (length old) (c # cs)) < length s"
        using assms Cons by (cases old) auto
      then have "set (str_replace old new (drop (length old) (c # cs))) \<subseteq>
          set (drop (length old) (c # cs)) \<union> set new"
        using 1 by blast
      moreover have "set (drop (length old) (c # cs)) \<subseteq> set (c # cs)"
        by (rule set_drop_subset)
      ultimately show ?thesis
        unfolding Cons eq by auto
    next
      case False
      have eq: "str_replace old new (c # cs) = c # str_replace old new cs"
        using False assms by simp
      have "set (str_replace old new cs) \<subseteq> set cs \<union> set new"
        using 1 Cons by simp
      then show ?thesis
        unfolding Cons eq by auto
    qed
  qed
qed

lemma text_lines_subset: "l \<in> set (text_lines s) \<Longrightarrow> set l \<subseteq> set s"
proof -
  assume "l \<in> set (text_lines s)"
  then have "set l \<subseteq> set (concat (text_lines s))" by auto
  then show ?thesis by (simp add: concat_text_lines)
qed

lemma set_re_sub_literal: "set (re_sub_buildVersion (map Literal d) l) \<subseteq> set d \<union> set l"
  by (auto simp: re_sub_literal dest: set_dropWhileD)

lemma map_lines_no_CR:
  assumes "\<And>l. set (g l) \<subseteq> A \<union> set l" and "CR \<notin> A" and "CR \<notin> set s"
  shows "CR \<notin> set (map_lines g s)"
proof
  assume "CR \<in> set (map_lines g s)"
  then obtain l where l: "l \<in> set (text_lines s)" and "CR \<in> set (g l)"
    by (auto simp: map_lines_def)
  then have "CR \<in> A \<union> set l" using assms(1) by blast
  then show False using assms(2,3) text_lines_subset [OF l] by blast
qed

subsection \<open>The configuration rewrite for a version without backslash\<close>

lemma rewrite_config_literal:
  assumes "BSL \<notin> set v"
  shows "rewrite_config v c =
         Inr (fileinput_inplace (re_sub_buildVersion (map Literal (replacement v))) c)"
proof -
  have "parse_template (replacement v) = Some (map Literal (replacement v))"
    using assms by (simp add: parse_template_literal replacement_clean)
  then show ?thesis
    by (cases "c = []")
      (simp_all add: rewrite_config_def readlines_eq_Nil readlines_Nil fileinput_inplace_def)
qed

lemma set_line_idem:
  assumes "LF \<notin> set v"
  shows "re_sub_buildVersion (map Literal (replacement v))
           (re_sub_buildVersion (map Literal (replacement v)) l) =
         re_sub_buildVersion (map Literal (replacement v)) l"
  using assms
  by (simp add: re_sub_literal matches_replacement dropWhile_after_clean replacement_clean)

lemma set_line_LF:
  assumes "LF \<notin> set v" and "LF \<notin> set w"
  shows "\<exists>w'. LF \<notin> set w' \<and>
           re_sub_buildVersion (map Literal (replacement v)) (w @ [LF]) = w' @ [LF]"
  using assms
  by (auto simp: re_sub_literal dropWhile_after_clean replacement_clean)

lemma set_line_last:
  assumes "LF \<notin> set v" and "LF \<notin> set w" and "w \<noteq> []"
  shows "LF \<notin> set (re_sub_buildVersion (map Literal (replacement v)) w) \<and>
         re_sub_buildVersion (map Literal (replacement v)) w \<noteq> []"
  using assms
  by (auto simp: re_sub_literal dropWhile_clean replacement_clean)

lemma readlines_rewrite_config:
  assumes "BSL \<notin> set v" and "LF \<notin> set v" and "CR \<notin> set v"
      and "rewrite_config v c = Inr c'"
  shows "readlines c' = map (re_sub_buildVersion (map Literal (replacement v))) (readlines c)"
proof -
  let ?g = "re_sub_buildVersion (map Literal (replacement v))"
  let ?u = "universal_newlines c"
  have c': "c' = map_lines ?g ?u"
    using assms(1,4) by (simp add: rewrite_config_literal fileinput_inplace_map_lines)
  have "CR \<notin> set c'"
    unfolding c'
    by (rule map_lines_no_CR [where A = "set (replacement v)"])
      (simp_all add: set_re_sub_literal replacement_clean assms(3) universal_newlines_no_CR)
  then have "readlines c' = text_lines (map_lines ?g ?u)"
    unfolding c' by (rule readlines_no_CR)
  also have "\<dots> = map ?g (text_lines ?u)"
    using text_lines_map_lines [of ?g ?u] set_line_LF [OF assms(2)] set_line_last [OF assms(2)]
    by blast
  finally show ?thesis by (simp add: readlines_def)
qed

lemma rewrite_config_idem:
  assumes "BSL \<notin> set v" and "LF \<notin> set v" and "CR \<notin> set v"
      and "rewrite_config v c = Inr c'"
  shows "rewrite_config v c' = Inr c'"
proof -
  let ?g = "re_sub_buildVersion (map Literal (replacement v))"
  have c': "c' = fileinput_inplace ?g c"
    using assms(1,4) by (simp add: rewrite_config_literal)
  have "fileinput_inplace ?g c' = concat (map ?g (map ?g (readlines c)))"
    using readlines_rewrite_config [OF assms] by (simp add: fileinput_inplace_def)
  also have "\<dots> = concat (map ?g (readlines c))"
    using set_line_idem [OF assms(2)] by (simp add: comp_def)
  finally show ?thesis
    using c' assms(1) by (simp add: rewrite_config_literal fileinput_inplace_def)
qed

lemma rewrite_config_lines:
  assumes "BSL \<notin> set v" and "LF \<notin> set v" and "CR \<notin> set v"
      and "rewrite_config v c = Inr c'"
      and "l' \<in> set (readlines c')" and "matches_buildVersion l'"
  shows "l' = replacement v @ dropWhile (\<lambda>x. x \<noteq> LF) l'"
proof -
  obtain l where l: "l' = re_sub_buildVersion (map Literal (replacement v)) l"
    using readlines_rewrite_config [OF assms(1-4)] assms(5) by auto
  show ?thesis
    using assms(2,6) unfolding l
    by (auto simp: re_sub_literal dropWhile_after_clean replacement_clean split: if_splits)
qed

subsection \<open>Merging directory trees\<close>

lemma copy2_other: "x \<noteq> n \<Longrightarrow> map_of (fst (copy2 n c des)) x = map_of des x"
  by (auto simp: copy2_def update_conv' split: option.splits node.splits)

lemma copy_entries_other:
  "x \<notin> fst ` set ses \<Longrightarrow> map_of (fst (copy_entries ses des)) x = map_of des x"
proof (induction ses des rule: copy_entries.induct)
  case (1 des)
  then show ?case by simp
next
  case (2 n c rest des)
  obtain des1 e1 where c2: "copy2 n c des = (des1, e1)"
    by (cases "copy2 n c des")
  have "map_of des1 x = map_of des x"
    using copy2_other [of x n c des] c2 "2.prems" by simp
  moreover have "map_of (fst (copy_entries rest des1)) x = map_of des1 x"
    using "2.IH" [OF c2 [symmetric]] "2.prems" by simp
  ultimately show ?case
    using c2 by (auto split: prod.splits)
next
  case (3 n sub rest des)
  have xn: "x \<noteq> n" and xr: "x \<notin> fst ` set rest"
    using "3.prems" by auto
  show ?case
  proof (cases "map_of des n")
    case None
    obtain dsub' e1 where s: "copy_entries sub [] = (dsub', e1)"
      by (cases "copy_entries sub []")
    have "map_of (fst (copy_entries rest (AList.update n (Dir dsub') des))) x = map_of des x"
      using "3.IH"(2) [OF None s [symmetric] xr] xn by (simp add: update_conv')
    then show ?thesis using None s by (auto split: prod.splits)
  next
    case (Some m)
    show ?thesis
    proof (cases m)
      case (File y)
      have "map_of (fst (copy_entries rest des)) x = map_of des x"
        using "3.IH"(3) [OF Some File xr] .
      then show ?thesis using Some File by (auto split: prod.splits)
    next
      case (Dir dsub0)
      obtain dsub' e1 where s: "copy_entries sub dsub0 = (dsub', e1)"
        by (cases "copy_entries sub dsub0")
      have "map_of (fst (copy_entries rest (AList.update n (Dir dsub') des))) x = map_of des x"
        using "3.IH"(5) [OF Some Dir s [symmetric] xr] xn by (simp add: update_conv')
      then show ?thesis using Some Dir s by (auto split: prod.splits)
    qed
  qed
qed

lemma copy2_keeps_files:
  assumes "lookup_path (Dir des) p = Some (File c)"
  shows "\<exists>c'. lookup_path (Dir (fst (copy2 n c0 des))) p = Some (File c')"
proof (cases p)
  case Nil
  then show ?thesis using assms by simp
next
  case (Cons x q)
  show ?thesis
  proof (cases "x = n")
    case False
    then show ?thesis using assms Cons copy2_other [of x n c0 des] by simp
  next
    case True
    show ?thesis
    proof (cases q)
      case Nil
      then show ?thesis
        using assms Cons True
        by (auto simp: copy2_def update_conv' split: option.splits node.splits)
    next
      case q: (Cons y q')
      show ?thesis
      proof (cases "y = n")
        case False
        then show ?thesis
          using assms Cons True q
          by (auto simp: copy2_def update_conv' split: option.splits node.splits)
      next
        case y: True
        show ?thesis
        proof (cases q')
          case Nil
          then show ?thesis
            using assms Cons True q y
            by (auto simp: copy2_def update_conv' split: option.splits node.splits)
        next
          case (Cons z q'')
          then show ?thesis
            using assms \<open>p = x # q\<close> True q y
            by (auto simp: copy2_def update_conv' split: option.splits node.splits)
        qed
      qed
    qed
  qed
qed

lemma copy_entries_keeps_files:
  "lookup_path (Dir des) p = Some (File c) \<Longrightarrow>
   \<exists>c'. lookup_path (Dir (fst (copy_entries ses des))) p = Some (File c')"
proof (induction ses des arbitrary: p c rule: copy_entries.induct)
  case (1 des)
  then show ?case by simp
next
  case (2 n c0 rest des)
  obtain des1 e1 where c2: "copy2 n c0 des = (des1, e1)" by (cases "copy2 n c0 des")
  obtain c1 where "lookup_path (Dir des1) p = Some (File c1)"
    using copy2_keeps_files [OF "2.prems", of n c0] c2 by auto
  then obtain c' where "lookup_path (Dir (fst (copy_entries rest des1))) p = Some (File c')"
    using "2.IH" [OF c2 [symmetric]] by blast
  then show ?case using c2 by (auto split: prod.splits)
next
  case (3 n sub rest des)
  show ?case
  proof (cases "map_of des n")
    case None
    obtain dsub' e1 where s: "copy_entries sub [] = (dsub', e1)" by (cases "copy_entries sub []")
    have "lookup_path (Dir (AList.update n (Dir dsub') des)) p = Some (File c)"
      using "3.prems" None by (cases p) (auto simp: update_conv')
    then obtain c' where
      "lookup_path (Dir (fst (copy_entries rest (AList.update n (Dir dsub') des)))) p = Some (File c')"
      using "3.IH"(2) [OF None s [symmetric]] by blast
    then show ?thesis using None s by (auto split: prod.splits)
  next
    case (Some m)
    show ?thesis
    proof (cases m)
      case (File x)
      obtain c' where "lookup_path (Dir (fst (copy_entries rest des))) p = Some (File c')"
        using "3.IH"(3) [OF Some File] "3.prems" by blast
      then show ?thesis using Some File by (auto split: prod.splits)
    next
      case (Dir dsub)
      obtain dsub' e1 where s: "copy_entries sub dsub = (dsub', e1)"
        by (cases "copy_entries sub dsub")
      have "\<exists>c1. lookup_path (Dir (AList.update n (Dir dsub') des)) p = Some (File c1)"
      proof (cases p)
        case Nil
        then show ?thesis using "3.prems" by simp
      next
        case (Cons x q)
        show ?thesis
        proof (cases "x = n")
          case False
          then show ?thesis using "3.prems" Cons by (simp add: update_conv')
        next
          case True
          then have "lookup_path (Dir dsub) q = Some (File c)"
            using "3.prems" Cons Some Dir by simp
          then obtain c1 where "lookup_path (Dir (fst (copy_entries sub dsub))) q = Some (File c1)"
            using "3.IH"(4) [OF Some Dir] by blast
          then show ?thesis using True Cons s by (simp add: update_conv')
        qed
      qed
      then obtain c1 where "lookup_path (Dir (AList.update n (Dir dsub') des)) p = Some (File c1)"
        by blast
      then obtain c' where
        "lookup_path (Dir (fst (copy_entries rest (AList.update n (Dir dsub') des)))) p = Some (File c')"
        using "3.IH"(5) [OF Some Dir s [symmetric]] by blast
      then show ?thesis using Some Dir s by (auto split: prod.splits)
    qed
  qed
qed

lemma copy2_sets_file:
  "lookup_path (Dir des) [n] = Some (File c0) \<Longrightarrow>
   lookup_path (Dir (fst (copy2 n c des))) [n] = Some (File c)"
  by (auto simp: copy2_def update_conv' split: option.splits node.splits)

lemma lookup_path_File: "lookup_path (File x) q = Some (File c) \<Longrightarrow> q = [] \<and> x = c"
  by (cases q) simp_all

lemma copy_entries_overwrites:
  "distinct_names (Dir ses) \<Longrightarrow> lookup_path (Dir ses) p = Some (File c) \<Longrightarrow>
   lookup_path (Dir des) p = Some (File c0) \<Longrightarrow>
   lookup_path (Dir (fst (copy_entries ses des))) p = Some (File c)"
proof (induction ses des arbitrary: p c c0 rule: copy_entries.induct)
  case (1 des)
  then show ?case by (cases p) simp_all
next
  case (2 n c1 rest des)
  obtain x q where p: "p = x # q"
    using "2.prems"(2) by (cases p) auto
  obtain des1 e1 where c2: "copy2 n c1 des = (des1, e1)"
    by (cases "copy2 n c1 des")
  have dn: "distinct_names (Dir rest)" and fresh: "n \<notin> fst ` set rest"
    using "2.prems"(1) by auto
  show ?case
  proof (cases "x = n")
    case True
    then have q: "q = []" and c: "c1 = c"
      using "2.prems"(2) p lookup_path_File [of c1 q c] by auto
    have "lookup_path (Dir des1) [n] = Some (File c)"
      using copy2_sets_file [of des n c0 c1] "2.prems"(3) p True q c c2 by simp
    moreover have "map_of (fst (copy_entries rest des1)) n = map_of des1 n"
      using copy_entries_other [OF fresh] .
    ultimately show ?thesis
      using p True q c2 by (auto split: prod.splits)
  next
    case False
    have "lookup_path (Dir rest) p = Some (File c)"
      using "2.prems"(2) p False by simp
    moreover have "lookup_path (Dir des1) p = Some (File c0)"
      using "2.prems"(3) p False copy2_other [of x n c1 des] c2 by simp
    ultimately have "lookup_path (Dir (fst (copy_entries rest des1))) p = Some (File c)"
      using "2.IH" [OF c2 [symmetric] dn] by blast
    then show ?thesis
      using c2 by (auto split: prod.splits)
  qed
next
  case (3 n sub rest des)
  obtain x q where p: "p = x # q"
    using "3.prems"(2) by (cases p) auto
  have dsub: "distinct_names (Dir sub)" and dn: "distinct_names (Dir rest)"
    and fresh: "n \<notin> fst ` set rest"
    using "3.prems"(1) by auto
  show ?case
  proof (cases "x = n")
    case True
    have src: "lookup_path (Dir sub) q = Some (File c)"
      using "3.prems"(2) p True by simp
    then have q: "q \<noteq> []" by auto
    obtain m where m: "map_of des n = Some m" and mq: "lookup_path m q = Some (File c0)"
      using "3.prems"(3) p True by (auto split: option.splits)
    obtain dsub0 where d: "m = Dir dsub0"
      using mq q lookup_path_File [of _ q c0] by (cases m) auto
    obtain dsub' e1 where s: "copy_entries sub dsub0 = (dsub', e1)"
      by (cases "copy_entries sub dsub0")
    have "lookup_path (Dir dsub') q = Some (File c)"
      using "3.IH"(4) [OF m d dsub src] mq d s by simp
    moreover have "map_of (fst (copy_entries rest (AList.update n (Dir dsub') des))) n =
        Some (Dir dsub')"
      using copy_entries_other [OF fresh] by (simp add: update_conv')
    ultimately show ?thesis
      using p True m d s by (auto split: prod.splits)
  next
    case False
    have src: "lookup_path (Dir rest) p = Some (File c)"
      using "3.prems"(2) p False by simp
    show ?thesis
    proof (cases "map_of des n")
      case None
      obtain dsub' e1 where s: "copy_entries sub [] = (dsub', e1)"
        by (cases "copy_entries sub []")
      have "lookup_path (Dir (AList.update n (Dir dsub') des)) p = Some (File c0)"
        using "3.prems"(3) p False by (simp add: update_conv')
      then have "lookup_path (Dir (fst (copy_entries rest (AList.update n (Dir dsub') des)))) p =
          Some (File c)"
        using "3.IH"(2) [OF None s [symmetric] dn src] by blast
      then show ?thesis using None s by (auto split: prod.splits)
    next
      case (Some m)
      show ?thesis
      proof (cases m)
        case (File y)
        have "lookup_path (Dir (fst (copy_entries rest des))) p = Some (File c)"
          using "3.IH"(3) [OF Some File dn src "3.prems"(3)] .
        then show ?thesis using Some File by (auto split: prod.splits)
      next
        case (Dir dsub0)
        obtain dsub' e1 where s: "copy_entries sub dsub0 = (dsub', e1)"
          by (cases "copy_entries sub dsub0")
        have "lookup_path (Dir (AList.update n (Dir dsub') des)) p = Some (File c0)"
          using "3.prems"(3) p False by (simp add: update_conv')
        then have "lookup_path (Dir (fst (copy_entries rest (AList.update n (Dir dsub') des)))) p =
            Some (File c)"
          using "3.IH"(5) [OF Some Dir s [symmetric] dn src] by blast
        then show ?thesis using Some Dir s by (auto split: prod.splits)
      qed
    qed
  qed
qed

subsection \<open>Sequencing and the exit status of commands\<close>

lemma and_then_simps [simp]:
  "and_then (Finished, w) k = k w"
  "and_then (SysExit m, w) k = (SysExit m, w)"
  "and_then (Raised e, w) k = (Raised e, w)"
  by (simp_all add: and_then_def)

lemma snd_and_then:
  "snd (and_then r k) = (if fst r = Finished then snd (k (snd r)) else snd r)"
proof -
  obtain out w1 where r: "r = (out, w1)" by (cases r)
  show ?thesis unfolding r by (cases out) auto
qed

lemma fst_and_then:
  "fst (and_then r k) = (if fst r = Finished then fst (k (snd r)) else fst r)"
proof -
  obtain out w1 where r: "r = (out, w1)" by (cases r)
  show ?thesis unfolding r by (cases out) auto
qed

lemma run_statement_with_status:
  "run_statement (with_status g t) argv w = run_statement t argv w"
  by (cases "t argv (fs w)") (auto simp: run_statement_def subprocess_run_def with_status_def)

lemma build_version_with_status:
  "build_version (with_status g t) use_yarn v w = build_version t use_yarn v w"
  by (simp add: build_version_def run_statement_with_status)

lemma build_loop_with_status:
  "build_loop (with_status g t) use_yarn vs = build_loop t use_yarn vs"
proof (induction vs)
  case Nil
  show ?case by (rule ext) simp
next
  case (Cons v vs)
  show ?case by (rule ext) (simp add: build_version_with_status Cons)
qed

subsection \<open>What each statement leaves unchanged\<close>

lemma print_line_frame [simp]:
  "fs (print_line l w) = fs w"
  "invoked (print_line l w) = invoked w"
  "stdout (print_line l w) = stdout w @ [l]"
  by (simp_all add: print_line_def)

lemma replace_in_redirects_frame [simp]:
  "stdout (snd (replace_in_redirects old new w)) = stdout w"
  "invoked (snd (replace_in_redirects old new w)) = invoked w"
  "docusaurus_config_js (fs (snd (replace_in_redirects old new w))) = docusaurus_config_js (fs w)"
  "build (fs (snd (replace_in_redirects old new w))) = build (fs w)"
  "build_temp (fs (snd (replace_in_redirects old new w))) = build_temp (fs w)"
  by (simp_all add: replace_in_redirects_def split: option.splits)

lemma set_buildVersion_frame [simp]:
  "stdout (snd (set_buildVersion v w)) = stdout w"
  "invoked (snd (set_buildVersion v w)) = invoked w"
  "redirects_js (fs (snd (set_buildVersion v w))) = redirects_js (fs w)"
  "build (fs (snd (set_buildVersion v w))) = build (fs w)"
  "build_temp (fs (snd (set_buildVersion v w))) = build_temp (fs w)"
  by (simp_all add: set_buildVersion_def split: option.splits sum.splits)

lemma run_statement_frame [simp]:
  "stdout (snd (run_statement t argv w)) = stdout w"
  "invoked (snd (run_statement t argv w)) = invoked w @ [argv]"
  by (simp_all add: run_statement_def subprocess_run_def split: option.splits prod.splits)

lemma run_statement_keeps_redirects:
  "keeps_redirects t \<Longrightarrow>
   redirects_js (fs (snd (run_statement t argv w))) = redirects_js (fs w)"
  by (auto simp: run_statement_def subprocess_run_def keeps_redirects_def
      split: option.splits prod.splits)

lemma run_statement_keeps_config:
  "keeps_config t \<Longrightarrow>
   docusaurus_config_js (fs (snd (run_statement t argv w))) = docusaurus_config_js (fs w)"
  by (auto simp: run_statement_def subprocess_run_def keeps_config_def
      split: option.splits prod.splits)

lemma merge_copy_frame [simp]:
  "stdout (snd (merge_copy w)) = stdout w"
  "invoked (snd (merge_copy w)) = invoked w"
  "redirects_js (fs (snd (merge_copy w))) = redirects_js (fs w)"
  "docusaurus_config_js (fs (snd (merge_copy w))) = docusaurus_config_js (fs w)"
  "build (fs (snd (merge_copy w))) = build (fs w)"
  by (simp_all add: merge_copy_def split: option.splits node.splits prod.splits)

lemma rmtree_build_frame [simp]:
  "stdout (snd (rmtree_build w)) = stdout w"
  "invoked (snd (rmtree_build w)) = invoked w"
  "redirects_js (fs (snd (rmtree_build w))) = redirects_js (fs w)"
  "docusaurus_config_js (fs (snd (rmtree_build w))) = docusaurus_config_js (fs w)"
  by (simp_all add: rmtree_build_def split: option.splits node.splits)

lemma move_temp_frame [simp]:
  "stdout (snd (move_temp w)) = stdout w"
  "invoked (snd (move_temp w)) = invoked w"
  "redirects_js (fs (snd (move_temp w))) = redirects_js (fs w)"
  "docusaurus_config_js (fs (snd (move_temp w))) = docusaurus_config_js (fs w)"
  by (simp_all add: move_temp_def split: option.splits)

lemma rmtree_ignore_errors_frame [simp]:
  "stdout (rmtree_ignore_errors w) = stdout w"
  "invoked (rmtree_ignore_errors w) = invoked w"
  "redirects_js (fs (rmtree_ignore_errors w)) = redirects_js (fs w)"
  "docusaurus_config_js (fs (rmtree_ignore_errors w)) = docusaurus_config_js (fs w)"
  "\<not> isdir (build (fs (rmtree_ignore_errors w)))"
  by (simp_all add: rmtree_ignore_errors_def split: option.splits node.splits)

lemma patch_files_frame [simp]:
  "stdout (snd (patch_files v w)) = stdout w @ [announce v]"
  "invoked (snd (patch_files v w)) = invoked w"
  "build (fs (snd (patch_files v w))) = build (fs w)"
  "build_temp (fs (snd (patch_files v w))) = build_temp (fs w)"
  by (simp_all add: patch_files_def snd_and_then)

lemma collect_output_frame [simp]:
  "stdout (snd (collect_output v w)) = stdout w"
  "invoked (snd (collect_output v w)) = invoked w"
  "docusaurus_config_js (fs (snd (collect_output v w))) = docusaurus_config_js (fs w)"
  by (simp_all add: collect_output_def snd_and_then)

lemma tail_steps_frame [simp]:
  "stdout (snd (and_then (rmtree_build w) move_temp)) = stdout w"
  "invoked (snd (and_then (rmtree_build w) move_temp)) = invoked w"
  "redirects_js (fs (snd (and_then (rmtree_build w) move_temp))) = redirects_js (fs w)"
  "docusaurus_config_js (fs (snd (and_then (rmtree_build w) move_temp))) = docusaurus_config_js (fs w)"
  by (simp_all add: snd_and_then)

lemma build_version_stdout [simp]:
  "stdout (snd (build_version t use_yarn v w)) = stdout w @ [announce v]"
proof -
  have "stdout (snd (build_version t use_yarn v w)) = stdout (snd (patch_files v w))"
    by (simp add: build_version_def snd_and_then)
  then show ?thesis by simp
qed

lemma build_loop_stdout:
  "prefix (stdout (snd (build_loop t use_yarn vs w))) (stdout w @ map announce vs) \<and>
   (fst (build_loop t use_yarn vs w) = Finished \<longrightarrow>
      stdout (snd (build_loop t use_yarn vs w)) = stdout w @ map announce vs)"
proof (induction vs arbitrary: w)
  case Nil
  show ?case by simp
next
  case (Cons v vs)
  obtain out w1 where bv: "build_version t use_yarn v w = (out, w1)"
    by (cases "build_version t use_yarn v w")
  have w1: "stdout w1 = stdout w @ [announce v]"
    using build_version_stdout [of t use_yarn v w] bv by simp
  show ?case
  proof (cases out)
    case Finished
    then show ?thesis using Cons [of w1] bv w1 by simp
  next
    case (SysExit m)
    then show ?thesis using bv w1 by simp
  next
    case (Raised e)
    then show ?thesis using bv w1 by simp
  qed
qed

lemma build_version_invoked:
  "\<exists>k\<le>1. invoked (snd (build_version t use_yarn v w)) = invoked w @ replicate k (build_cmd use_yarn)"
proof -
  obtain out w1 where pf: "patch_files v w = (out, w1)"
    by (cases "patch_files v w")
  have w1: "invoked w1 = invoked w"
    using patch_files_frame(2) [of v w] pf by simp
  show ?thesis
  proof (cases out)
    case Finished
    have "invoked (snd (build_version t use_yarn v w)) = invoked w @ [build_cmd use_yarn]"
      using pf Finished w1 by (simp add: build_version_def snd_and_then)
    then have "invoked (snd (build_version t use_yarn v w)) =
        invoked w @ replicate 1 (build_cmd use_yarn)" by simp
    then show ?thesis by blast
  next
    case (SysExit m)
    then have "invoked (snd (build_version t use_yarn v w)) =
        invoked w @ replicate 0 (build_cmd use_yarn)"
      using pf w1 by (simp add: build_version_def)
    then show ?thesis by blast
  next
    case (Raised e)
    then have "invoked (snd (build_version t use_yarn v w)) =
        invoked w @ replicate 0 (build_cmd use_yarn)"
      using pf w1 by (simp add: build_version_def)
    then show ?thesis by blast
  qed
qed

lemma build_loop_invoked:
  "\<exists>k\<le>length vs. invoked (snd (build_loop t use_yarn vs w)) =
      invoked w @ replicate k (build_cmd use_yarn)"
proof (induction vs arbitrary: w)
  case Nil
  show ?case by simp
next
  case (Cons v vs)
  obtain out w1 where bv: "build_version t use_yarn v w = (out, w1)"
    by (cases "build_version t use_yarn v w")
  obtain k1 where k1: "k1 \<le> 1" "invoked w1 = invoked w @ replicate k1 (build_cmd use_yarn)"
    using build_version_invoked [of t use_yarn v w] bv by auto
  show ?case
  proof (cases out)
    case Finished
    obtain k where k: "k \<le> length vs"
      "invoked (snd (build_loop t use_yarn vs w1)) = invoked w1 @ replicate k (build_cmd use_yarn)"
      using Cons [of w1] by blast
    have "invoked (snd (build_loop t use_yarn (v # vs) w)) =
        invoked w @ replicate (k1 + k) (build_cmd use_yarn)"
      using bv Finished k k1 by (simp add: replicate_add)
    moreover have "k1 + k \<le> length (v # vs)" using k k1 by simp
    ultimately show ?thesis by blast
  next
    case (SysExit m)
    then have "invoked (snd (build_loop t use_yarn (v # vs) w)) =
        invoked w @ replicate k1 (build_cmd use_yarn)" using bv k1 by simp
    moreover have "k1 \<le> length (v # vs)" using k1 by simp
    ultimately show ?thesis by blast
  next
    case (Raised e)
    then have "invoked (snd (build_loop t use_yarn (v # vs) w)) =
        invoked w @ replicate k1 (build_cmd use_yarn)" using bv k1 by simp
    moreover have "k1 \<le> length (v # vs)" using k1 by simp
    ultimately show ?thesis by blast
  qed
qed

lemma install_invoked:
  "invoked (snd (install t skip_install use_yarn w)) =
     invoked w @ (if skip_install then [] else [install_cmd use_yarn])"
  by (simp add: install_def)

lemma install_stdout:
  "stdout (snd (install t skip_install use_yarn w)) =
     stdout w @ (if skip_install then [] else [''Installing Docusaurus...''])"
  by (simp add: install_def)

lemma build_docs_invoked:
  "\<exists>k\<le>length vs. invoked (snd (build_docs t vs use_yarn w)) =
      invoked w @ replicate k (build_cmd use_yarn)"
proof -
  have "invoked (snd (build_docs t vs use_yarn w)) = invoked (snd (build_loop t use_yarn vs w))"
    by (simp add: build_docs_def snd_and_then)
  then show ?thesis using build_loop_invoked [of vs t use_yarn w] by simp
qed

subsection \<open>Evaluating a run on a concrete project\<close>

lemmas run_defs =
  main_def install_def run_statement_def subprocess_run_def page_tool_def silent_tool_def
  project_def and_then_def install_cmd_def build_cmd_def print_line_def
  rmtree_ignore_errors_def build_docs_def build_version_def patch_files_def
  collect_output_def replace_in_redirects_def set_buildVersion_def rewrite_config_def
  fileinput_inplace_def readlines_def replacement_def re_sub_buildVersion_def matches_buildVersion_def
  expand_def merge_copy_def copytree_def copy2_def rmtree_build_def move_temp_def
  announce_def not_built_def

subsection \<open>The loop and the redirect file\<close>

lemma and_then_assoc:
  "and_then (and_then r k1) k2 = and_then r (\<lambda>w. and_then (k1 w) k2)"
proof -
  obtain out w1 where r: "r = (out, w1)" by (cases r)
  show ?thesis unfolding r by (cases out) auto
qed

lemma and_then_stops: "out \<noteq> Finished \<Longrightarrow> and_then (out, w) k = (out, w)"
  by (cases out) auto

lemma build_loop_append:
  "build_loop t use_yarn (pre @ vs) =
     (\<lambda>w. and_then (build_loop t use_yarn pre w) (build_loop t use_yarn vs))"
proof (induction pre)
  case Nil
  show ?case by (rule ext) simp
next
  case (Cons v pre)
  show ?case by (rule ext) (simp add: Cons and_then_assoc)
qed

lemma main_aborts_at:
  assumes "install t skip_install use_yarn w00 = (Finished, w0)"
      and "sort versions = pre @ v # rest"
      and "build_loop t use_yarn pre (rmtree_ignore_errors w0) = (Finished, w)"
      and "build_version t use_yarn v w = (out, w')"
      and "out \<noteq> Finished"
  shows "main t versions skip_install use_yarn w00 = (out, w')"
  using assms by (simp add: main_def build_docs_def build_loop_append and_then_stops)

lemma no_SysExit:
  "fst (replace_in_redirects old new w) \<noteq> SysExit m"
  "fst (set_buildVersion v w) \<noteq> SysExit m"
  "fst (run_statement t argv w) \<noteq> SysExit m"
  "fst (merge_copy w) \<noteq> SysExit m"
  by (auto simp: replace_in_redirects_def set_buildVersion_def run_statement_def
      subprocess_run_def merge_copy_def
      split: option.splits sum.splits prod.splits node.splits)

lemma patch_files_no_SysExit: "fst (patch_files v w) \<noteq> SysExit m"
  by (simp add: patch_files_def fst_and_then no_SysExit)

lemma collect_output_SysExit:
  "fst (collect_output v w) = SysExit m \<Longrightarrow>
   \<not> isdir (build (fs w)) \<and> snd (collect_output v w) = w \<and> m = not_built"
  by (auto simp: collect_output_def fst_and_then no_SysExit split: if_splits)

lemma build_version_SysExit:
  assumes "fst (build_version t use_yarn v w) = SysExit m"
  shows "fst (patch_files v w) = Finished \<and>
         fst (run_statement t (build_cmd use_yarn) (snd (patch_files v w))) = Finished \<and>
         \<not> isdir (build (fs (snd (run_statement t (build_cmd use_yarn) (snd (patch_files v w)))))) \<and>
         snd (build_version t use_yarn v w) =
           snd (run_statement t (build_cmd use_yarn) (snd (patch_files v w)))"
proof -
  let ?p = "patch_files v w"
  let ?r = "run_statement t (build_cmd use_yarn) (snd ?p)"
  have p: "fst ?p = Finished"
    using assms patch_files_no_SysExit [of v w m]
    by (auto simp: build_version_def fst_and_then split: if_splits)
  have r: "fst ?r = Finished"
    using assms p no_SysExit(3) [of t "build_cmd use_yarn" "snd ?p" m]
    by (auto simp: build_version_def fst_and_then split: if_splits)
  have c: "fst (collect_output v (snd ?r)) = SysExit m"
    using assms p r by (simp add: build_version_def fst_and_then)
  have "snd (build_version t use_yarn v w) = snd (collect_output v (snd ?r))"
    using p r by (simp add: build_version_def snd_and_then)
  then show ?thesis
    using p r collect_output_SysExit [OF c] by simp
qed

lemma patch_files_redirects:
  "redirects_js (fs w) = Some r \<Longrightarrow>
   redirects_js (fs (snd (patch_files v w))) =
     Some (if v \<noteq> ''latest''
           then str_replace ''/latest/'' (''/'' @ v @ ''/'') (universal_newlines r) else r)"
  by (simp add: patch_files_def snd_and_then replace_in_redirects_def
      fileinput_inplace_str_replace)

lemma collect_output_redirects:
  assumes "redirects_js (fs w) = Some x" and "fst (collect_output v w) = Finished"
      and "LF \<notin> set v"
  shows "redirects_js (fs (snd (collect_output v w))) =
     Some (if v \<noteq> ''latest''
           then str_replace (''/'' @ v @ ''/'') ''/latest/'' (universal_newlines x) else x)"
proof -
  have dir: "isdir (build (fs w))"
    using assms(2) by (auto simp: collect_output_def split: if_splits)
  have m: "fst (merge_copy w) = Finished"
    using assms(2) dir by (auto simp: collect_output_def fst_and_then split: if_splits)
  have r: "redirects_js (fs (snd (merge_copy w))) = Some x"
    using assms(1) by simp
  show ?thesis
    using dir m r assms(3)
    by (simp add: collect_output_def snd_and_then replace_in_redirects_def
        fileinput_inplace_str_replace)
qed

lemma build_version_redirects:
  assumes "keeps_redirects t"
      and "v \<noteq> ''latest'' \<longrightarrow>
            CHR ''/'' \<notin> set v \<and> LF \<notin> set v \<and> CR \<notin> set v \<and>
            \<not> contains r (''/'' @ v @ ''/'')"
      and "CR \<notin> set r"
      and "redirects_js (fs w) = Some r"
      and "fst (build_version t use_yarn v w) = Finished"
  shows "redirects_js (fs (snd (build_version t use_yarn v w))) = Some r"
proof -
  let ?p = "patch_files v w"
  let ?r = "run_statement t (build_cmd use_yarn) (snd ?p)"
  let ?x = "if v \<noteq> ''latest'' then str_replace ''/latest/'' (''/'' @ v @ ''/'') r else r"
  have p: "fst ?p = Finished"
    using assms(5) by (auto simp: build_version_def fst_and_then split: if_splits)
  have r: "fst ?r = Finished"
    using assms(5) p by (auto simp: build_version_def fst_and_then split: if_splits)
  have c: "fst (collect_output v (snd ?r)) = Finished"
    using assms(5) p r by (simp add: build_version_def fst_and_then)
  have s: "snd (build_version t use_yarn v w) = snd (collect_output v (snd ?r))"
    using p r by (simp add: build_version_def snd_and_then)
  have rx: "redirects_js (fs (snd ?r)) = Some ?x"
    using run_statement_keeps_redirects [OF assms(1)] patch_files_redirects [OF assms(4), of v]
      universal_newlines_id [OF assms(3)]
    by simp
  show ?thesis
  proof (cases "v = ''latest''")
    case True
    then show ?thesis
      using collect_output_redirects [OF rx c] s by simp
  next
    case False
    then have v: "CHR ''/'' \<notin> set v" "LF \<notin> set v" "CR \<notin> set v"
      "\<not> contains r (CHR ''/'' # v @ ''/'')"
      using assms(2) by simp_all
    let ?y = "str_replace ''/latest/'' (CHR ''/'' # v @ ''/'') r"
    have "set ?y \<subseteq> set r \<union> set (CHR ''/'' # v @ ''/'')"
      by (rule set_str_replace) simp
    then have "CR \<notin> set ?y"
      using assms(3) v(3) by auto
    then have u: "universal_newlines ?y = ?y"
      by (rule universal_newlines_id)
    have "str_replace (CHR ''/'' # v @ ''/'') ''/latest/'' ?y = r"
      using str_replace_roundtrip [OF v(1) v(4), of "''latest/''"] by simp
    then show ?thesis
      using collect_output_redirects [OF rx c v(2)] s False u by simp
  qed
qed

lemma build_loop_redirects:
  assumes "keeps_redirects t" and "CR \<notin> set r"
  shows "\<forall>v\<in>set vs. v \<noteq> ''latest'' \<longrightarrow>
            CHR ''/'' \<notin> set v \<and> LF \<notin> set v \<and> CR \<notin> set v \<and>
            \<not> contains r (''/'' @ v @ ''/'') \<Longrightarrow>
         redirects_js (fs w) = Some r \<Longrightarrow>
         fst (build_loop t use_yarn vs w) = Finished \<Longrightarrow>
         redirects_js (fs (snd (build_loop t use_yarn vs w))) = Some r"
proof (induction vs arbitrary: w)
  case Nil
  then show ?case by simp
next
  case (Cons v vs)
  let ?b = "build_version t use_yarn v w"
  have b: "fst ?b = Finished"
    using Cons.prems(3) by (auto simp: fst_and_then split: if_splits)
  have "redirects_js (fs (snd ?b)) = Some r"
    using build_version_redirects [OF assms(1) _ assms(2) Cons.prems(2) b] Cons.prems(1)
    by simp
  moreover have "fst (build_loop t use_yarn vs (snd ?b)) = Finished"
    using Cons.prems(3) b by (simp add: fst_and_then)
  ultimately have "redirects_js (fs (snd (build_loop t use_yarn vs (snd ?b)))) = Some r"
    using Cons.IH [of "snd ?b"] Cons.prems(1) by simp
  then show ?case using b by (simp add: snd_and_then)
qed

lemma install_keeps_redirects:
  "keeps_redirects t \<Longrightarrow>
   redirects_js (fs (snd (install t skip_install use_yarn w))) = redirects_js (fs w)"
  by (simp add: install_def run_statement_keeps_redirects)

lemma main_redirects:
  assumes "keeps_redirects t"
      and "\<forall>v\<in>set versions. v \<noteq> ''latest'' \<longrightarrow>
            CHR ''/'' \<notin> set v \<and> LF \<notin> set v \<and> CR \<notin> set v \<and>
            \<not> contains r (''/'' @ v @ ''/'')"
      and "CR \<notin> set r"
      and "redirects_js (fs w) = Some r"
      and "fst (main t versions skip_install use_yarn w) = Finished"
  shows "redirects_js (fs (snd (main t versions skip_install use_yarn w))) = Some r"
proof -
  let ?i = "install t skip_install use_yarn w"
  let ?w0 = "rmtree_ignore_errors (snd ?i)"
  let ?l = "build_loop t use_yarn (sort versions) ?w0"
  have i: "fst ?i = Finished"
    using assms(5) by (auto simp: main_def fst_and_then split: if_splits)
  have l: "fst ?l = Finished"
    using assms(5) i by (auto simp: main_def build_docs_def fst_and_then split: if_splits)
  have "redirects_js (fs ?w0) = Some r"
    using install_keeps_redirects [OF assms(1)] assms(4) by simp
  then have "redirects_js (fs (snd ?l)) = Some r"
    using build_loop_redirects [OF assms(1,3), of "sort versions" ?w0] assms(2) l by simp
  then show ?thesis
    using i l by (simp add: main_def build_docs_def snd_and_then)
qed

lemma keeps_redirects_page_tool: "keeps_redirects (page_tool rc)"
  by (auto simp: keeps_redirects_def page_tool_def split: if_splits)

lemma keeps_redirects_silent_tool: "keeps_redirects silent_tool"
  by (auto simp: keeps_redirects_def silent_tool_def)

subsection \<open>The configuration file and the printed lines\<close>

lemma readlines_shape: "l \<in> set (readlines s) \<Longrightarrow> l \<noteq> [] \<and> LF \<notin> set (butlast l)"
  unfolding readlines_def by (rule text_lines_shape)

lemma line_end:
  assumes "l \<noteq> []" and "LF \<notin> set (butlast l)"
  shows "dropWhile (\<lambda>x. x \<noteq> LF) l = (if last l = LF then [LF] else [])"
proof -
  have "dropWhile (\<lambda>x. x \<noteq> LF) (butlast l @ [last l]) = dropWhile (\<lambda>x. x \<noteq> LF) [last l]"
    by (rule dropWhile_append2) (use assms(2) in auto)
  then show ?thesis using assms(1) by simp
qed

lemma set_buildVersion_Finished:
  "fst (set_buildVersion v w) = Finished \<Longrightarrow>
   \<exists>c c'. docusaurus_config_js (fs w) = Some c \<and> rewrite_config v c = Inr c' \<and>
     docusaurus_config_js (fs (snd (set_buildVersion v w))) = Some c'"
  by (auto simp: set_buildVersion_def split: option.splits sum.splits)

lemma patch_files_config:
  assumes "fst (patch_files v w) = Finished"
  shows "\<exists>c c'. docusaurus_config_js (fs w) = Some c \<and> rewrite_config v c = Inr c' \<and>
     docusaurus_config_js (fs (snd (patch_files v w))) = Some c'"
proof (cases "v = ''latest''")
  case True
  then show ?thesis
    using assms set_buildVersion_Finished [of v "print_line (announce v) w"]
    by (simp add: patch_files_def)
next
  case False
  let ?a = "replace_in_redirects ''/latest/'' (''/'' @ v @ ''/'') (print_line (announce v) w)"
  have a: "fst ?a = Finished"
    using assms False by (auto simp: patch_files_def fst_and_then split: if_splits)
  then have "fst (set_buildVersion v (snd ?a)) = Finished"
    using assms False by (simp add: patch_files_def fst_and_then)
  then show ?thesis
    using set_buildVersion_Finished [of v "snd ?a"] a False
    by (simp add: patch_files_def snd_and_then)
qed

lemma build_version_config:
  assumes "keeps_config t" and "fst (build_version t use_yarn v w) = Finished"
  shows "\<exists>c c'. docusaurus_config_js (fs w) = Some c \<and> rewrite_config v c = Inr c' \<and>
     docusaurus_config_js (fs (snd (build_version t use_yarn v w))) = Some c'"
proof -
  let ?p = "patch_files v w"
  let ?r = "run_statement t (build_cmd use_yarn) (snd ?p)"
  have p: "fst ?p = Finished"
    using assms(2) by (auto simp: build_version_def fst_and_then split: if_splits)
  have r: "fst ?r = Finished"
    using assms(2) p by (auto simp: build_version_def fst_and_then split: if_splits)
  have "docusaurus_config_js (fs (snd (build_version t use_yarn v w))) =
        docusaurus_config_js (fs (snd ?p))"
    using p r run_statement_keeps_config [OF assms(1)]
    by (simp add: build_version_def snd_and_then)
  then show ?thesis
    using patch_files_config [OF p] by simp
qed

lemma sorted_le_last:
  fixes xs :: "string list"
  shows "sorted xs \<Longrightarrow> y \<in> set xs \<Longrightarrow> y \<le> last xs"
  by (induction xs) auto

lemma last_sort_Max:
  fixes vs :: "string list"
  assumes "vs \<noteq> []"
  shows "last (sort vs) = Max (set vs)"
proof -
  have ne: "sort vs \<noteq> []" using assms by (metis length_0_conv length_sort)
  have "Max (set (sort vs)) = last (sort vs)"
  proof (rule Max_eqI)
    show "finite (set (sort vs))" by simp
    show "last (sort vs) \<in> set (sort vs)" using ne by (rule last_in_set)
    fix y assume "y \<in> set (sort vs)"
    then show "y \<le> last (sort vs)"
      using sorted_le_last [of "sort vs" y] by simp
  qed
  then show ?thesis by simp
qed

lemma build_docs_stdout:
  "stdout (snd (build_docs t vs use_yarn w)) = stdout (snd (build_loop t use_yarn vs w))"
  by (simp add: build_docs_def snd_and_then)

lemma main_stdout:
  "prefix (stdout (snd (main t versions skip_install use_yarn w)))
     (stdout w @ (if skip_install then [] else [''Installing Docusaurus...'']) @
      map announce (sort versions)) \<and>
   (fst (main t versions skip_install use_yarn w) = Finished \<longrightarrow>
    stdout (snd (main t versions skip_install use_yarn w)) =
      stdout w @ (if skip_install then [] else [''Installing Docusaurus...'']) @
      map announce (sort versions))"
proof (cases "fst (install t skip_install use_yarn w) = Finished")
  case True
  let ?w0 = "rmtree_ignore_errors (snd (install t skip_install use_yarn w))"
  have s: "stdout ?w0 =
      stdout w @ (if skip_install then [] else [''Installing Docusaurus...''])"
    by (simp add: install_stdout)
  have m: "stdout (snd (main t versions skip_install use_yarn w)) =
      stdout (snd (build_loop t use_yarn (sort versions) ?w0))"
    using True by (simp add: main_def snd_and_then build_docs_stdout)
  have f: "fst (main t versions skip_install use_yarn w) = Finished \<longrightarrow>
      fst (build_loop t use_yarn (sort versions) ?w0) = Finished"
    using True by (auto simp: main_def build_docs_def fst_and_then split: if_splits)
  show ?thesis
    using build_loop_stdout [of t use_yarn "sort versions" ?w0] m f s by simp
next
  case False
  then have "stdout (snd (main t versions skip_install use_yarn w)) =
      stdout w @ (if skip_install then [] else [''Installing Docusaurus...''])"
    by (simp add: main_def snd_and_then fst_and_then install_stdout)
  moreover have "fst (main t versions skip_install use_yarn w) \<noteq> Finished"
    using False by (simp add: main_def fst_and_then)
  ultimately show ?thesis by simp
qed

lemma main_config:
  assumes "keeps_config t" and "fst (main t versions skip_install use_yarn w) = Finished"
  shows "versions \<noteq> [] \<and>
     (\<exists>c c'. rewrite_config (last (sort versions)) c = Inr c' \<and>
        docusaurus_config_js (fs (snd (main t versions skip_install use_yarn w))) = Some c')"
proof -
  let ?i = "install t skip_install use_yarn w"
  let ?w0 = "rmtree_ignore_errors (snd ?i)"
  let ?l = "build_loop t use_yarn (sort versions) ?w0"
  have i: "fst ?i = Finished"
    using assms(2) by (auto simp: main_def fst_and_then split: if_splits)
  have l: "fst ?l = Finished"
    using assms(2) i by (auto simp: main_def build_docs_def fst_and_then split: if_splits)
  have tail: "fst (rmtree_build (snd ?l)) = Finished"
    using assms(2) i l by (auto simp: main_def build_docs_def fst_and_then split: if_splits)
  have cfg: "docusaurus_config_js (fs (snd (main t versions skip_install use_yarn w))) =
      docusaurus_config_js (fs (snd ?l))"
    using i l by (simp add: main_def build_docs_def snd_and_then)
  have ne: "versions \<noteq> []"
  proof
    assume "versions = []"
    then have "snd ?l = ?w0" by simp
    then have "\<not> isdir (build (fs (snd ?l)))" by simp
    then show False
      using tail by (auto simp: rmtree_build_def split: option.splits node.splits)
  qed
  then have "sort versions \<noteq> []" by (metis length_0_conv length_sort)
  then have sv: "sort versions = butlast (sort versions) @ [last (sort versions)]"
    by simp
  let ?m = "build_loop t use_yarn (butlast (sort versions)) ?w0"
  have "?l = and_then ?m (build_loop t use_yarn [last (sort versions)])"
    using build_loop_append [of t use_yarn "butlast (sort versions)" "[last (sort versions)]"] sv
    by (metis (no_types, lifting))
  then have l2: "?l = and_then ?m (\<lambda>w. build_version t use_yarn (last (sort versions)) w)"
    by (simp add: fst_and_then snd_and_then prod_eq_iff)
  have m: "fst ?m = Finished"
    using l l2 by (auto simp: fst_and_then split: if_splits)
  have b: "fst (build_version t use_yarn (last (sort versions)) (snd ?m)) = Finished"
    using l l2 m by (simp add: fst_and_then)
  have "snd ?l = snd (build_version t use_yarn (last (sort versions)) (snd ?m))"
    using l2 m by (simp add: snd_and_then)
  then show ?thesis
    using build_version_config [OF assms(1) b] cfg ne by auto
qed

lemma keeps_config_page_tool: "keeps_config (page_tool rc)"
  by (auto simp: keeps_config_def page_tool_def split: if_splits)

lemma merge_copy_temp:
  "build (fs w) = Some (Dir ses) \<Longrightarrow>
   build_temp (fs (snd (merge_copy w))) = fst (copytree ses (build_temp (fs w)))"
  by (simp add: merge_copy_def split: prod.splits option.splits)

lemma sorted_order_and_last_write:
  "prefix (stdout (snd (main t versions skip_install use_yarn w)))
     (stdout w @ (if skip_install then [] else [''Installing Docusaurus...'']) @
      map announce (sort versions)) \<and>
   sorted (sort versions) \<and>
   (fst (main t versions skip_install use_yarn w) = Finished \<longrightarrow>
      stdout (snd (main t versions skip_install use_yarn w)) =
        stdout w @ (if skip_install then [] else [''Installing Docusaurus...'']) @
        map announce (sort versions)) \<and>
   (fst (main t versions skip_install use_yarn w) = Finished \<longrightarrow> keeps_config t \<longrightarrow>
    BSL \<notin> set (Max (set versions)) \<longrightarrow> LF \<notin> set (Max (set versions)) \<longrightarrow>
    CR \<notin> set (Max (set versions)) \<longrightarrow>
      (\<exists>c'. docusaurus_config_js (fs (snd (main t versions skip_install use_yarn w))) = Some c' \<and>
         (\<forall>l\<in>set (readlines c'). matches_buildVersion l \<longrightarrow>
            l = replacement (Max (set versions)) \<or>
            l = replacement (Max (set versions)) @ [LF])))"
proof -
  have "\<exists>c'. docusaurus_config_js (fs (snd (main t versions skip_install use_yarn w))) = Some c' \<and>
         (\<forall>l\<in>set (readlines c'). matches_buildVersion l \<longrightarrow>
            l = replacement (Max (set versions)) \<or>
            l = replacement (Max (set versions)) @ [LF])"
    if fin: "fst (main t versions skip_install use_yarn w) = Finished" and k: "keeps_config t"
      and b: "BSL \<notin> set (Max (set versions))" and n: "LF \<notin> set (Max (set versions))"
      and r: "CR \<notin> set (Max (set versions))"
  proof -
    obtain c c' where ne: "versions \<noteq> []"
      and rw: "rewrite_config (last (sort versions)) c = Inr c'"
      and cfg: "docusaurus_config_js (fs (snd (main t versions skip_install use_yarn w))) = Some c'"
      using main_config [OF k fin] by blast
    have mx: "last (sort versions) = Max (set versions)"
      using last_sort_Max [OF ne] .
    have "l = replacement (Max (set versions)) \<or> l = replacement (Max (set versions)) @ [LF]"
      if l: "l \<in> set (readlines c')" and ml: "matches_buildVersion l" for l
    proof -
      have "l = replacement (Max (set versions)) @ dropWhile (\<lambda>x. x \<noteq> LF) l"
        using rewrite_config_lines [OF b n r _ l ml] rw mx by simp
      moreover have "dropWhile (\<lambda>x. x \<noteq> LF) l = (if last l = LF then [LF] else [])"
        using line_end readlines_shape [OF l] by blast
      ultimately show ?thesis by (metis append_Nil2)
    qed
    then show ?thesis using cfg by blast
  qed
  then show ?thesis
    using main_stdout [of t versions skip_install use_yarn w] by simp
qed

subsection \<open>Files the merge leaves as they are\<close>

lemma copy_entries_keeps_content:
  "distinct_names (Dir ses) \<Longrightarrow> lookup_path (Dir des) p = Some (File c) \<Longrightarrow>
   (\<forall>q x. q \<noteq> [] \<longrightarrow> prefix q p \<longrightarrow> lookup_path (Dir ses) q \<noteq> Some (File x)) \<Longrightarrow>
   lookup_path (Dir (fst (copy_entries ses des))) p = Some (File c)"
proof (induction ses des arbitrary: p c rule: copy_entries.induct)
  case (1 des)
  then show ?case by simp
next
  case (2 n c1 rest des)
  obtain x p' where p: "p = x # p'"
    using "2.prems"(2) by (cases p) auto
  have dn: "distinct_names (Dir rest)"
    using "2.prems"(1) by auto
  have xn: "x \<noteq> n"
  proof
    assume "x = n"
    then have "prefix [n] p" and "lookup_path (Dir ((n, File c1) # rest)) [n] = Some (File c1)"
      using p by simp_all
    then show False using "2.prems"(3) by blast
  qed
  obtain des1 e1 where c2: "copy2 n c1 des = (des1, e1)"
    by (cases "copy2 n c1 des")
  have here: "lookup_path (Dir des1) p = Some (File c)"
    using "2.prems"(2) p xn copy2_other [of x n c1 des] c2 by simp
  have cond: "\<forall>q y. q \<noteq> [] \<longrightarrow> prefix q p \<longrightarrow> lookup_path (Dir rest) q \<noteq> Some (File y)"
  proof (intro allI impI)
    fix q y
    assume q: "q \<noteq> []" "prefix q p"
    then obtain q' where "q = x # q'"
      using p by (cases q) auto
    then have "lookup_path (Dir ((n, File c1) # rest)) q = lookup_path (Dir rest) q"
      using xn by simp
    then show "lookup_path (Dir rest) q \<noteq> Some (File y)"
      using "2.prems"(3) q by metis
  qed
  have "lookup_path (Dir (fst (copy_entries rest des1))) p = Some (File c)"
    using "2.IH" [OF c2 [symmetric] dn here cond] .
  then show ?case using c2 by (auto split: prod.splits)
next
  case (3 n sub rest des)
  obtain x p' where p: "p = x # p'"
    using "3.prems"(2) by (cases p) auto
  have dsub: "distinct_names (Dir sub)" and dn: "distinct_names (Dir rest)"
    and fresh: "n \<notin> fst ` set rest"
    using "3.prems"(1) by auto
  show ?case
  proof (cases "x = n")
    case True
    obtain m where m: "map_of des n = Some m" and mp: "lookup_path m p' = Some (File c)"
      using "3.prems"(2) p True by (auto split: option.splits)
    show ?thesis
    proof (cases m)
      case (File y)
      have "map_of (fst (copy_entries rest des)) n = map_of des n"
        using copy_entries_other [OF fresh] .
      then have "lookup_path (Dir (fst (copy_entries rest des))) p = Some (File c)"
        using p True m mp by simp
      then show ?thesis using m File by (auto split: prod.splits)
    next
      case (Dir dsub0)
      obtain dsub' e1 where s: "copy_entries sub dsub0 = (dsub', e1)"
        by (cases "copy_entries sub dsub0")
      have cond: "\<forall>q y. q \<noteq> [] \<longrightarrow> prefix q p' \<longrightarrow> lookup_path (Dir sub) q \<noteq> Some (File y)"
      proof (intro allI impI)
        fix q y
        assume q: "q \<noteq> []" "prefix q p'"
        then have "n # q \<noteq> []" and "prefix (n # q) p"
          using p True by simp_all
        then have "lookup_path (Dir ((n, Dir sub) # rest)) (n # q) \<noteq> Some (File y)"
          using "3.prems"(3) by blast
        then show "lookup_path (Dir sub) q \<noteq> Some (File y)"
          using q(1) by (cases q) simp_all
      qed
      have "lookup_path (Dir dsub0) p' = Some (File c)"
        using mp Dir by simp
      then have "lookup_path (Dir dsub') p' = Some (File c)"
        using "3.IH"(4) [OF m Dir dsub _ cond] s by simp
      moreover have "map_of (fst (copy_entries rest (AList.update n (Dir dsub') des))) n =
          Some (Dir dsub')"
        using copy_entries_other [OF fresh] by (simp add: update_conv')
      ultimately show ?thesis
        using p True m Dir s by (auto split: prod.splits)
    qed
  next
    case False
    have cond: "\<forall>q y. q \<noteq> [] \<longrightarrow> prefix q p \<longrightarrow> lookup_path (Dir rest) q \<noteq> Some (File y)"
    proof (intro allI impI)
      fix q y
      assume q: "q \<noteq> []" "prefix q p"
      then obtain q' where "q = x # q'"
        using p by (cases q) auto
      then have "lookup_path (Dir ((n, Dir sub) # rest)) q = lookup_path (Dir rest) q"
        using False by simp
      then show "lookup_path (Dir rest) q \<noteq> Some (File y)"
        using "3.prems"(3) q by metis
    qed
    show ?thesis
    proof (cases "map_of des n")
      case None
      obtain dsub' e1 where s: "copy_entries sub [] = (dsub', e1)"
        by (cases "copy_entries sub []")
      have "lookup_path (Dir (AList.update n (Dir dsub') des)) p = Some (File c)"
        using "3.prems"(2) p False by (simp add: update_conv')
      then have "lookup_path (Dir (fst (copy_entries rest (AList.update n (Dir dsub') des)))) p =
          Some (File c)"
        using "3.IH"(2) [OF None s [symmetric] dn _ cond] by blast
      then show ?thesis using None s by (auto split: prod.splits)
    next
      case (Some m)
      show ?thesis
      proof (cases m)
        case (File y)
        have "lookup_path (Dir (fst (copy_entries rest des))) p = Some (File c)"
          using "3.IH"(3) [OF Some File dn "3.prems"(2) cond] .
        then show ?thesis using Some File by (auto split: prod.splits)
      next
        case (Dir dsub0)
        obtain dsub' e1 where s: "copy_entries sub dsub0 = (dsub', e1)"
          by (cases "copy_entries sub dsub0")
        have "lookup_path (Dir (AList.update n (Dir dsub') des)) p = Some (File c)"
          using "3.prems"(2) p False by (simp add: update_conv')
        then have "lookup_path (Dir (fst (copy_entries rest (AList.update n (Dir dsub') des)))) p =
            Some (File c)"
          using "3.IH"(5) [OF Some Dir s [symmetric] dn _ cond] by blast
        then show ?thesis using Some Dir s by (auto split: prod.splits)
      qed
    qed
  qed
qed

section \<open>The claims\<close>

subsection \<open>C1: exit statuses of the external commands\<close>

text \<open>
  Claim C1 says that a nonzero exit status of the install command or of a build command
  aborts the run at once with that status. The script calls \<^verbatim>\<open>subprocess.run\<close> without
  \<^verbatim>\<open>check=True\<close> and drops what it returns, so the exit status of a command is never looked
  at. Here the install command and both build commands exit with status 3; the run goes on
  to build both versions and ends with exit status 0.
\<close>

theorem exit_status_counterexample:
  "page_tool 3 (install_cmd False) (fs (project ''/latest/a'' ''var buildVersion = 0'')) =
     Some (3, fs (project ''/latest/a'' ''var buildVersion = 0'')) \<and>
   exit_status (fst (main (page_tool 3) [''latest'', ''1.0''] False False
     (project ''/latest/a'' ''var buildVersion = 0''))) = 0 \<and>
   invoked (snd (main (page_tool 3) [''latest'', ''1.0''] False False
     (project ''/latest/a'' ''var buildVersion = 0''))) =
     [install_cmd False, build_cmd False, build_cmd False]"
  by (simp add: run_defs)

text \<open>
  Claim C1, as amended: the exit statuses of the install command and of the build commands
  have no influence on the run. Whatever statuses the commands return, the run ends the
  same way, leaves the same files, prints the same lines and invokes the same commands as
  with any other statuses.
\<close>

theorem exit_status_ignored:
  "main (with_status g t) versions skip_install use_yarn w =
   main t versions skip_install use_yarn w"
  by (simp add: main_def install_def build_docs_def build_loop_with_status
      run_statement_with_status)

subsection \<open>C2: the redirect file after a version and after the run\<close>

text \<open>
  Claim C2 says that the redirect file is restored after every version other than
  \<^verbatim>\<open>latest\<close>, and so after the run, whenever every build step succeeds. The restore step
  is the reverse substitution, which also rewrites the occurrences of \<^verbatim>\<open>/{v}/\<close> the file
  held before. Here the file mentions \<^verbatim>\<open>/1.0/\<close>, version \<^verbatim>\<open>1.0\<close> is built, every step
  succeeds, and the file ends with \<^verbatim>\<open>/latest/\<close> in its place.
\<close>

theorem redirects_restored_counterexample:
  "keeps_redirects (page_tool 0) \<and>
   redirects_js (fs (project ''/latest/a /1.0/b'' ''var buildVersion = 0'')) =
     Some ''/latest/a /1.0/b'' \<and>
   fst (main (page_tool 0) [''latest'', ''1.0''] False False
     (project ''/latest/a /1.0/b'' ''var buildVersion = 0'')) = Finished \<and>
   redirects_js (fs (snd (main (page_tool 0) [''latest'', ''1.0''] False False
     (project ''/latest/a /1.0/b'' ''var buildVersion = 0'')))) = Some ''/latest/a /latest/b'' \<and>
   redirects_js (fs (snd (main (page_tool 0) [''latest'', ''1.0''] False False
     (project ''/latest/a /1.0/b'' ''var buildVersion = 0'')))) \<noteq>
     redirects_js (fs (project ''/latest/a /1.0/b'' ''var buildVersion = 0''))"
  by (simp add: run_defs keeps_redirects_page_tool)

text \<open>
  Claim C2, as amended. Let the external commands leave the redirect file alone, let the
  content \<open>r\<close> of the redirect file hold no carriage return, and let every version
  \<open>v\<close> of the run other than \<^verbatim>\<open>latest\<close> hold no slash and no line break, with no
  occurrence of \<^verbatim>\<open>/{v}/\<close> in \<open>r\<close>. Then an iteration for a version of the run that
  starts with the content \<open>r\<close> and completes ends with the content \<open>r\<close>, and a run that
  starts with \<open>r\<close> and completes ends with \<open>r\<close>.
\<close>

theorem redirects_restored:
  assumes "keeps_redirects t"
      and "\<forall>v\<in>set versions. v \<noteq> ''latest'' \<longrightarrow>
            CHR ''/'' \<notin> set v \<and> LF \<notin> set v \<and> CR \<notin> set v \<and>
            \<not> contains r (''/'' @ v @ ''/'')"
      and "CR \<notin> set r"
      and "redirects_js (fs w) = Some r"
  shows "(\<forall>v\<in>set versions. \<forall>w1.
            redirects_js (fs w1) = Some r \<longrightarrow>
            fst (build_version t use_yarn v w1) = Finished \<longrightarrow>
            redirects_js (fs (snd (build_version t use_yarn v w1))) = Some r) \<and>
         (fst (main t versions skip_install use_yarn w) = Finished \<longrightarrow>
            redirects_js (fs (snd (main t versions skip_install use_yarn w))) = Some r)"
  using build_version_redirects [OF assms(1) _ assms(3)]
    main_redirects [OF assms(1,2,3,4)] assms(2)
  by blast

theorem redirects_restored_witness:
  "keeps_redirects (page_tool 0) \<and>
   fst (main (page_tool 0) [''latest'', ''1.0''] False False
     (project ''see /latest/a'' ''var buildVersion = 0'')) = Finished \<and>
   redirects_js (fs (snd (main (page_tool 0) [''latest'', ''1.0''] False False
     (project ''see /latest/a'' ''var buildVersion = 0'')))) = Some ''see /latest/a''"
proof -
  let ?w = "project ''see /latest/a'' ''var buildVersion = 0''"
  have k: "keeps_redirects (page_tool 0)"
    by (rule keeps_redirects_page_tool)
  have h: "\<forall>v\<in>set [''latest'', ''1.0'']. v \<noteq> ''latest'' \<longrightarrow>
      CHR ''/'' \<notin> set v \<and> LF \<notin> set v \<and> CR \<notin> set v \<and>
      \<not> contains ''see /latest/a'' (''/'' @ v @ ''/'')"
    by simp
  have n: "CR \<notin> set ''see /latest/a''"
    by simp
  have r: "redirects_js (fs ?w) = Some ''see /latest/a''"
    by (simp add: project_def)
  have f: "fst (main (page_tool 0) [''latest'', ''1.0''] False False ?w) = Finished"
    by (simp add: run_defs)
  show ?thesis
    using redirects_restored [OF k h n r, of False False] f k by blast
qed

subsection \<open>C3: the redirect file when the output directory is missing\<close>

text \<open>
  Claim C3: let the external commands leave the redirect file alone. When the iteration for
  a version \<open>v\<close> other than \<^verbatim>\<open>latest\<close> ends the run because the output directory is
  missing, the run leaves the redirect file as the forward substitution wrote it: the
  content \<open>r\<close> the iteration started with, as the text layer reads it, every
  \<^verbatim>\<open>/latest/\<close> replaced by \<^verbatim>\<open>/{v}/\<close>. The reverse substitution has not run.
\<close>

theorem abort_leaves_redirects_rewritten:
  assumes "keeps_redirects t" and "v \<noteq> ''latest''"
      and "install t skip_install use_yarn w00 = (Finished, w0)"
      and "sort versions = pre @ v # rest"
      and "build_loop t use_yarn pre (rmtree_ignore_errors w0) = (Finished, w)"
      and "redirects_js (fs w) = Some r"
      and "fst (build_version t use_yarn v w) = SysExit not_built"
  shows "fst (main t versions skip_install use_yarn w00) = SysExit not_built \<and>
         redirects_js (fs (snd (main t versions skip_install use_yarn w00))) =
           Some (str_replace ''/latest/'' (''/'' @ v @ ''/'') (universal_newlines r)) \<and>
         redirects_js (fs (snd (main t versions skip_install use_yarn w00))) =
           Some (fileinput_inplace (str_replace ''/latest/'' (''/'' @ v @ ''/'')) r)"
proof -
  let ?b = "build_version t use_yarn v w"
  let ?p = "patch_files v w"
  have m: "main t versions skip_install use_yarn w00 = (SysExit not_built, snd ?b)"
    using main_aborts_at [OF assms(3-5), of "SysExit not_built" "snd ?b"] assms(7)
    by (metis outcome.distinct(1) prod.collapse)
  have "snd ?b = snd (run_statement t (build_cmd use_yarn) (snd ?p))"
    using build_version_SysExit [OF assms(7)] by simp
  then have "redirects_js (fs (snd ?b)) = redirects_js (fs (snd ?p))"
    using run_statement_keeps_redirects [OF assms(1)] by simp
  then show ?thesis
    using m patch_files_redirects [OF assms(6), of v] assms(2)
    by (simp add: fileinput_inplace_str_replace)
qed

theorem abort_leaves_redirects_rewritten_witness:
  "fst (main silent_tool [''latest'', ''1.0''] True False
     (project ''see /latest/a'' ''var buildVersion = 0'')) = SysExit not_built \<and>
   redirects_js (fs (snd (main silent_tool [''latest'', ''1.0''] True False
     (project ''see /latest/a'' ''var buildVersion = 0'')))) = Some ''see /1.0/a''"
proof -
  let ?w = "project ''see /latest/a'' ''var buildVersion = 0''"
  have 1: "install silent_tool True False ?w = (Finished, ?w)"
    by (simp add: install_def)
  have 2: "sort [''latest'', ''1.0''] = [] @ ''1.0'' # [''latest'']"
    by simp
  have 3: "build_loop silent_tool False [] (rmtree_ignore_errors ?w) =
      (Finished, rmtree_ignore_errors ?w)"
    by simp
  have 4: "redirects_js (fs (rmtree_ignore_errors ?w)) = Some ''see /latest/a''"
    by (simp add: project_def)
  have 5: "fst (build_version silent_tool False ''1.0'' (rmtree_ignore_errors ?w)) =
      SysExit not_built"
    by (simp add: run_defs)
  show ?thesis
    using abort_leaves_redirects_rewritten
      [OF keeps_redirects_silent_tool _ 1 2 3 4 5] by simp
qed

subsection \<open>C4: a missing output directory ends the run\<close>

text \<open>
  Claim C4: when the build command of a version has returned and \<^verbatim>\<open>build\<close> is not a
  directory, the run ends there with the message of line 57 and exit status 1. The state
  it leaves is the state the build command left: nothing is rewritten, built or copied
  afterwards, whatever versions remain.
\<close>

theorem missing_build_dir_aborts:
  assumes "install t skip_install use_yarn w00 = (Finished, w0)"
      and "sort versions = pre @ v # rest"
      and "build_loop t use_yarn pre (rmtree_ignore_errors w0) = (Finished, w)"
      and "fst (patch_files v w) = Finished"
      and "fst (run_statement t (build_cmd use_yarn) (snd (patch_files v w))) = Finished"
      and "\<not> isdir (build (fs (snd (run_statement t (build_cmd use_yarn) (snd (patch_files v w))))))"
  shows "main t versions skip_install use_yarn w00 =
           (SysExit ''ERROR: The docs were not built. Check Docusaurus logs.'',
            snd (run_statement t (build_cmd use_yarn) (snd (patch_files v w)))) \<and>
         exit_status (fst (main t versions skip_install use_yarn w00)) = 1"
proof -
  let ?r = "run_statement t (build_cmd use_yarn) (snd (patch_files v w))"
  have p: "patch_files v w = (Finished, snd (patch_files v w))"
    using assms(4) by (metis prod.collapse)
  have r: "?r = (Finished, snd ?r)"
    using assms(5) by (metis prod.collapse)
  have "collect_output v (snd ?r) = (SysExit not_built, snd ?r)"
    using assms(6) by (simp add: collect_output_def)
  then have "and_then ?r (collect_output v) = (SysExit not_built, snd ?r)"
    using r by (metis and_then_simps(1))
  then have "build_version t use_yarn v w = (SysExit not_built, snd ?r)"
    unfolding build_version_def using p by (metis and_then_simps(1))
  then have "main t versions skip_install use_yarn w00 = (SysExit not_built, snd ?r)"
    using main_aborts_at [OF assms(1-3)] by simp
  then show ?thesis by (simp add: not_built_def)
qed

theorem missing_build_dir_aborts_witness:
  "main silent_tool [''latest'', ''1.0''] True False
     (project ''see /latest/a'' ''var buildVersion = 0'') =
     (SysExit ''ERROR: The docs were not built. Check Docusaurus logs.'',
      snd (run_statement silent_tool (build_cmd False)
        (snd (patch_files ''1.0''
          (rmtree_ignore_errors (project ''see /latest/a'' ''var buildVersion = 0'')))))) \<and>
   invoked (snd (main silent_tool [''latest'', ''1.0''] True False
     (project ''see /latest/a'' ''var buildVersion = 0''))) = [build_cmd False]"
proof -
  let ?w = "project ''see /latest/a'' ''var buildVersion = 0''"
  have 1: "install silent_tool True False ?w = (Finished, ?w)"
    by (simp add: install_def)
  have 2: "sort [''latest'', ''1.0''] = [] @ ''1.0'' # [''latest'']"
    by simp
  have 3: "build_loop silent_tool False [] (rmtree_ignore_errors ?w) =
      (Finished, rmtree_ignore_errors ?w)"
    by simp
  have 4: "fst (patch_files ''1.0'' (rmtree_ignore_errors ?w)) = Finished"
    by (simp add: run_defs)
  have 5: "fst (run_statement silent_tool (build_cmd False)
      (snd (patch_files ''1.0'' (rmtree_ignore_errors ?w)))) = Finished"
    by (simp add: run_statement_def subprocess_run_def silent_tool_def)
  have 6: "\<not> isdir (build (fs (snd (run_statement silent_tool (build_cmd False)
      (snd (patch_files ''1.0'' (rmtree_ignore_errors ?w)))))))"
    by (simp add: run_defs)
  have m: "main silent_tool [''latest'', ''1.0''] True False ?w =
     (SysExit ''ERROR: The docs were not built. Check Docusaurus logs.'',
      snd (run_statement silent_tool (build_cmd False)
        (snd (patch_files ''1.0'' (rmtree_ignore_errors ?w)))))"
    using missing_build_dir_aborts [OF 1 2 3 4 5 6] by simp
  show ?thesis
    unfolding m by (simp add: project_def)
qed

subsection \<open>C5: the order of the versions and the last write\<close>

text \<open>
  Claim C5: the versions are processed in ascending order, and after a successful run the
  \<^verbatim>\<open>buildVersion\<close> declaration assigns the greatest version. The script builds the
  declaration with the version in it at line 42, but hands it to \<^verbatim>\<open>re.sub\<close> as the
  replacement, which reads it as a template. For the single version of two backslashes the
  run succeeds and the line written holds one backslash: it is not the declaration of the
  greatest version. (The order of the versions, and the declaration for a greatest version
  without backslash, are the lemma \<open>sorted_order_and_last_write\<close>.)
\<close>

theorem backslash_version_declaration:
  "fst (main (page_tool 0) [[BSL, BSL]] True False
     (project ''see /latest/a'' ''var buildVersion = 0'')) = Finished \<and>
   docusaurus_config_js (fs (snd (main (page_tool 0) [[BSL, BSL]] True False
     (project ''see /latest/a'' ''var buildVersion = 0'')))) =
     Some (''var buildVersion = '' @ [DQ, BSL, DQ] @ '';'') \<and>
   replacement (Max (set [[BSL, BSL]])) = ''var buildVersion = '' @ [DQ, BSL, BSL, DQ] @ '';'' \<and>
   docusaurus_config_js (fs (snd (main (page_tool 0) [[BSL, BSL]] True False
     (project ''see /latest/a'' ''var buildVersion = 0'')))) \<noteq>
     Some (replacement (Max (set [[BSL, BSL]])))"
  by (simp add: run_defs ESCAPES_def is_digit_def is_octdigit_def is_ascii_letter_def)

subsection \<open>C6: the configuration rewrite touches one line\<close>

text \<open>
  Claim C6 says that the rewrite leaves every line but the matching one unchanged byte for
  byte, line endings included. The file is read in text mode and written line by line:
  every line end comes back as a line feed. Here the file has the line ends \<^verbatim>\<open>\r\n\<close>,
  one line matches, the version is \<^verbatim>\<open>9\<close>, and the comment line loses its carriage
  return.
\<close>

theorem config_rewrite_frame_counterexample:
  "readlines (''// a'' @ [CR, LF] @ ''var buildVersion = 0'' @ [CR, LF]) =
     [''// a'' @ [LF]] @ [''var buildVersion = 0'' @ [LF]] @ [] \<and>
   matches_buildVersion (''var buildVersion = 0'' @ [LF]) \<and>
   \<not> matches_buildVersion (''// a'' @ [LF]) \<and>
   rewrite_config ''9'' (''// a'' @ [CR, LF] @ ''var buildVersion = 0'' @ [CR, LF]) =
     Inr (''// a'' @ [LF] @ replacement ''9'' @ [LF]) \<and>
   rewrite_config ''9'' (''// a'' @ [CR, LF] @ ''var buildVersion = 0'' @ [CR, LF]) \<noteq>
     Inr (''// a'' @ [CR, LF] @ replacement ''9'' @ [CR, LF])"
  by (simp add: run_defs)

text \<open>
  Claim C6, as amended: for a file whose line ends are line feeds (it holds no carriage
  return) and a version \<open>v\<close> without backslash, when exactly one line of the file
  matches the pattern, the rewrite replaces that line by the declaration of \<open>v\<close>,
  followed by the line feed if the line had one, and every other line stays as it is.
\<close>

theorem config_rewrite_frame:
  assumes "BSL \<notin> set v" and "CR \<notin> set c"
      and "readlines c = pre @ [l] @ post" and "matches_buildVersion l"
      and "\<forall>x\<in>set pre \<union> set post. \<not> matches_buildVersion x"
  shows "rewrite_config v c =
           Inr (concat pre @ (replacement v @ (if last l = LF then [LF] else [])) @ concat post) \<and>
         c = concat pre @ l @ concat post"
proof -
  let ?g = "re_sub_buildVersion (map Literal (replacement v))"
  have tl: "text_lines c = pre @ [l] @ post"
    using assms(2,3) by (simp add: readlines_no_CR)
  have "l \<in> set (readlines c)" using assms(3) by simp
  then have e: "dropWhile (\<lambda>x. x \<noteq> LF) l = (if last l = LF then [LF] else [])"
    using line_end readlines_shape by blast
  have pre: "map ?g pre = pre" and post: "map ?g post = post"
    using assms(5) by (auto simp: re_sub_literal intro: map_idI)
  have l: "?g l = replacement v @ (if last l = LF then [LF] else [])"
    using assms(4) e by (simp add: re_sub_literal)
  have "fileinput_inplace ?g c = concat pre @ ?g l @ concat post"
    using pre post by (simp add: fileinput_inplace_def assms(3))
  moreover have "c = concat pre @ l @ concat post"
    using concat_text_lines [of c] tl by simp
  ultimately show ?thesis
    using l rewrite_config_literal [OF assms(1), of c] by simp
qed

theorem config_rewrite_frame_witness:
  "rewrite_config ''26.0.0''
     (''// site'' @ [LF] @ ''var buildVersion = 0; // x'' @ [LF] @ ''  var y;'') =
   Inr (''// site'' @ [LF] @ replacement ''26.0.0'' @ [LF] @ ''  var y;'')"
proof -
  let ?c = "''// site'' @ [LF] @ ''var buildVersion = 0; // x'' @ [LF] @ ''  var y;''"
  have 1: "BSL \<notin> set ''26.0.0''" by simp
  have 0: "CR \<notin> set ?c" by simp
  have 2: "readlines ?c =
      [''// site'' @ [LF]] @ [''var buildVersion = 0; // x'' @ [LF]] @ [''  var y;'']"
    by (simp add: readlines_def)
  have 3: "matches_buildVersion (''var buildVersion = 0; // x'' @ [LF])"
    by (simp add: matches_buildVersion_def)
  have 4: "\<forall>x\<in>set [''// site'' @ [LF]] \<union> set [''  var y;'']. \<not> matches_buildVersion x"
    by (simp add: matches_buildVersion_def)
  show ?thesis
    using config_rewrite_frame [OF 1 0 2 3 4] by simp
qed

subsection \<open>C7: rewriting the configuration twice\<close>

text \<open>
  Claim C7 says that the configuration rewrite is idempotent for every content and every
  version. The file is rewritten line by line. A version with a line feed writes a
  declaration of two lines; the second rewrite replaces the first of them by the whole
  declaration again, and the file grows.
\<close>

theorem config_rewrite_idempotent_counterexample:
  "rewrite_config (''a'' @ [LF] @ ''b'') ''var buildVersion = 0'' =
     Inr (''var buildVersion = '' @ [DQ] @ ''a'' @ [LF] @ ''b'' @ [DQ] @ '';'') \<and>
   rewrite_config (''a'' @ [LF] @ ''b'')
     (''var buildVersion = '' @ [DQ] @ ''a'' @ [LF] @ ''b'' @ [DQ] @ '';'') =
     Inr (''var buildVersion = '' @ [DQ] @ ''a'' @ [LF] @ ''b'' @ [DQ] @ '';'' @ [LF] @
          ''b'' @ [DQ] @ '';'') \<and>
   rewrite_config (''a'' @ [LF] @ ''b'')
     (''var buildVersion = '' @ [DQ] @ ''a'' @ [LF] @ ''b'' @ [DQ] @ '';'') \<noteq>
     Inr (''var buildVersion = '' @ [DQ] @ ''a'' @ [LF] @ ''b'' @ [DQ] @ '';'')"
  by (simp add: run_defs)

text \<open>
  Claim C7, as amended: for a version without backslash and without line break, the
  rewrite succeeds on every content, and rewriting its result again gives the same result.
\<close>

theorem config_rewrite_idempotent:
  assumes "BSL \<notin> set v" and "LF \<notin> set v" and "CR \<notin> set v"
  shows "\<exists>c'. rewrite_config v c = Inr c' \<and> rewrite_config v c' = Inr c'"
  using rewrite_config_idem [OF assms] rewrite_config_literal [OF assms(1), of c]
  by blast

theorem config_rewrite_idempotent_witness:
  "\<exists>c'. rewrite_config ''26.0.0'' (''var buildVersion = 0;'' @ [LF] @ ''x'') = Inr c' \<and>
     rewrite_config ''26.0.0'' c' = Inr c'"
  by (rule config_rewrite_idempotent) simp_all

subsection \<open>C8: the merge into the staging directory\<close>

text \<open>
  Claim C8: the merge of the output directory into the staging directory deletes nothing.
  Every regular file of the staging directory is a regular file after the merge. A file
  that both directories hold under the same path has the content of the output directory
  afterwards. A staged file keeps its content when no regular file of the output directory
  sits at its path or at a directory above it.
\<close>

theorem merge_copy_keeps_staging:
  assumes "build (fs w) = Some (Dir ses)" and "distinct_names (Dir ses)"
  shows "(\<forall>p c. lookup_in (build_temp (fs w)) p = Some (File c) \<longrightarrow>
            (\<exists>c'. lookup_in (build_temp (fs (snd (merge_copy w)))) p = Some (File c'))) \<and>
         (\<forall>p c c0. lookup_in (build (fs w)) p = Some (File c) \<longrightarrow>
            lookup_in (build_temp (fs w)) p = Some (File c0) \<longrightarrow>
            lookup_in (build_temp (fs (snd (merge_copy w)))) p = Some (File c)) \<and>
         (\<forall>p c. lookup_in (build_temp (fs w)) p = Some (File c) \<longrightarrow>
            (\<forall>q x. q \<noteq> [] \<longrightarrow> prefix q p \<longrightarrow> lookup_in (build (fs w)) q \<noteq> Some (File x)) \<longrightarrow>
            lookup_in (build_temp (fs (snd (merge_copy w)))) p = Some (File c))"
proof (cases "build_temp (fs w)")
  case None
  then show ?thesis by (simp add: lookup_in_def)
next
  case (Some d)
  show ?thesis
  proof (cases d)
    case (File x)
    have same: "build_temp (fs (snd (merge_copy w))) = Some (File x)"
      using Some File by (simp add: merge_copy_temp [OF assms(1)] copytree_def)
    have "lookup_in (build (fs w)) p \<noteq> Some (File c)"
      if "lookup_in (build_temp (fs w)) p = Some (File c0)" for p c c0
    proof -
      have "p = []"
        using that Some File lookup_path_File [of x p c0] by (simp add: lookup_in_def)
      then show ?thesis using assms(1) by (simp add: lookup_in_def)
    qed
    then show ?thesis
      unfolding same using Some File by auto
  next
    case (Dir des)
    have t: "build_temp (fs (snd (merge_copy w))) = Some (Dir (fst (copy_entries ses des)))"
      using Some Dir by (simp add: merge_copy_temp [OF assms(1)] copytree_def split: prod.splits)
    show ?thesis
      using copy_entries_keeps_files [of des _ _ ses]
        copy_entries_overwrites [OF assms(2), of _ _ des]
        copy_entries_keeps_content [OF assms(2), of des]
      unfolding t Some Dir assms(1) lookup_in_def by simp
  qed
qed

theorem merge_copy_keeps_staging_witness:
  "(\<exists>c'. lookup_in (build_temp (fs (snd (merge_copy staged)))) [''docs'', ''a.html''] =
      Some (File c')) \<and>
   lookup_in (build_temp (fs (snd (merge_copy staged)))) [''index.html''] = Some (File ''new'')"
proof -
  have 1: "build (fs staged) = Some (Dir [(''index.html'', File ''new'')])"
    by (simp add: staged_def)
  have 2: "distinct_names (Dir [(''index.html'', File ''new'')])"
    by simp
  have 3: "lookup_in (build_temp (fs staged)) [''docs'', ''a.html''] = Some (File ''old'')"
    by (simp add: staged_def lookup_in_def)
  have 4: "lookup_in (build (fs staged)) [''index.html''] = Some (File ''new'')"
    by (simp add: staged_def lookup_in_def)
  have 5: "lookup_in (build_temp (fs staged)) [''index.html''] = Some (File ''old'')"
    by (simp add: staged_def lookup_in_def)
  show ?thesis
    using merge_copy_keeps_staging [OF 1 2] 3 4 5 by blast
qed

subsection \<open>C9: the two substitutions\<close>

text \<open>
  Claim C9 says that the forward substitution followed by the reverse one gives back every
  content with no occurrence of \<^verbatim>\<open>/{v}/\<close>, for every version \<open>v\<close> other than
  \<^verbatim>\<open>latest\<close>. A version with a slash can make the text before a replaced occurrence
  end in the beginning of a new one. Here \<open>v\<close> is \<^verbatim>\<open>x/x\<close>: the content holds no
  \<^verbatim>\<open>/x/x/\<close>, the forward step writes \<^verbatim>\<open>/x/x/x/\<close>, and the reverse step finds \<^verbatim>\<open>/x/x/\<close>
  at its start.
\<close>

theorem substitution_roundtrip_counterexample:
  "''x/x'' \<noteq> ''latest'' \<and> \<not> contains ''/x/latest/'' (''/'' @ ''x/x'' @ ''/'') \<and>
   fileinput_inplace (str_replace (''/'' @ ''x/x'' @ ''/'') ''/latest/'')
     (fileinput_inplace (str_replace ''/latest/'' (''/'' @ ''x/x'' @ ''/'')) ''/x/latest/'') =
   ''/latest/x/'' \<and>
   fileinput_inplace (str_replace (''/'' @ ''x/x'' @ ''/'') ''/latest/'')
     (fileinput_inplace (str_replace ''/latest/'' (''/'' @ ''x/x'' @ ''/'')) ''/x/latest/'') \<noteq>
   ''/x/latest/''"
  by (simp add: fileinput_inplace_def readlines_def)

text \<open>
  Claim C9, as amended: for every version \<open>v\<close> that holds no slash and no line break, and
  every content that holds no carriage return and no occurrence of \<^verbatim>\<open>/{v}/\<close>, the
  forward substitution followed by the reverse substitution gives back the content.
\<close>

theorem substitution_roundtrip:
  assumes "CHR ''/'' \<notin> set v" and "LF \<notin> set v" and "CR \<notin> set v"
      and "CR \<notin> set r" and "\<not> contains r (''/'' @ v @ ''/'')"
  shows "fileinput_inplace (str_replace (''/'' @ v @ ''/'') ''/latest/'')
           (fileinput_inplace (str_replace ''/latest/'' (''/'' @ v @ ''/'')) r) = r"
proof -
  let ?y = "str_replace ''/latest/'' (CHR ''/'' # v @ ''/'') r"
  have fwd: "fileinput_inplace (str_replace ''/latest/'' (CHR ''/'' # v @ ''/'')) r = ?y"
    using assms(4) by (simp add: fileinput_inplace_str_replace universal_newlines_id)
  have "set ?y \<subseteq> set r \<union> set (CHR ''/'' # v @ ''/'')"
    by (rule set_str_replace) simp
  then have "CR \<notin> set ?y"
    using assms(3,4) by auto
  then have bwd: "fileinput_inplace (str_replace (CHR ''/'' # v @ ''/'') ''/latest/'') ?y =
      str_replace (CHR ''/'' # v @ ''/'') ''/latest/'' ?y"
    using assms(2) by (simp add: fileinput_inplace_str_replace universal_newlines_id)
  have "str_replace (CHR ''/'' # v @ ''/'') ''/latest/'' ?y = r"
    using str_replace_roundtrip [OF assms(1), of r "''latest/''"] assms(5) by simp
  then show ?thesis
    using fwd bwd by simp
qed

theorem substitution_roundtrip_witness:
  "fileinput_inplace (str_replace (''/'' @ ''26.0.0'' @ ''/'') ''/latest/'')
     (fileinput_inplace (str_replace ''/latest/'' (''/'' @ ''26.0.0'' @ ''/''))
        (''a: /latest/x'' @ [LF] @ ''b: /latest/y'')) =
   ''a: /latest/x'' @ [LF] @ ''b: /latest/y''"
  by (rule substitution_roundtrip) simp_all

subsection \<open>C10: the install command\<close>


end
